theory Spec2Isabelle
  imports Complex_Main "HOL-Library.Log_Nat"
begin

section \<open>The type \<open>double\<close>: IEEE 754 binary64, round to nearest, ties to even\<close>

text \<open>
  Every number in \<^verbatim>\<open>math/complex_numbers.cpp\<close> and in the Kirchhoff voltage check is a
  C++ \<^verbatim>\<open>double\<close>. It is modelled as an IEEE 754 binary64 value: a NaN, a signed
  infinity, or a finite number \<open>(-1)\<^sup>s \<sqdot> m \<sqdot> 2\<^sup>e\<close> with a sign bit (so that \<open>-0.0\<close> differs from
  \<open>0.0\<close>), an integer significand and an exponent. Each arithmetic operation computes the
  exact rational result and rounds it once, to nearest with ties to even, the default
  rounding mode; no operation is fused with another. The payload and sign of a NaN are
  not modelled: there is one NaN.

  The significand is an \<open>int\<close> so that the definitions evaluate on binary numerals; it
  is read through its absolute value, hence every value of the datatype denotes a number.
  The operations only produce the canonical representation described by \<open>valid_double\<close>.
\<close>

datatype double = NaN | Infinity bool | Finite bool int int

definition pow2 :: "int \<Rightarrow> rat" where
  "pow2 e = (if 0 \<le> e then 2 ^ nat e else 1 / 2 ^ nat (- e))"

text \<open>The canonical finite values: 53 bits of significand, exponents of the format,
  significand at least \<open>2\<^sup>5\<^sup>2\<close> unless the number is subnormal. The two zeros are
  written with exponent 0.\<close>

fun valid_double :: "double \<Rightarrow> bool" where
  "valid_double (Finite s m e) =
     (if m = 0 then e = 0
      else 0 < m \<and> m < 2 ^ 53 \<and> - 1074 \<le> e \<and> e \<le> 971 \<and> (e = - 1074 \<or> 2 ^ 52 \<le> m))"
| "valid_double _ = True"

fun mag :: "double \<Rightarrow> rat" where
  "mag (Finite s m e) = of_int \<bar>m\<bar> * pow2 e"
| "mag _ = 0"

fun valof :: "double \<Rightarrow> rat" where
  "valof (Finite s m e) = (if s then - mag (Finite s m e) else mag (Finite s m e))"
| "valof _ = 0"

fun is_nan :: "double \<Rightarrow> bool" where
  "is_nan NaN = True"
| "is_nan _ = False"

fun is_zero :: "double \<Rightarrow> bool" where
  "is_zero (Finite s m e) = (m = 0)"
| "is_zero _ = False"

text \<open>\<^verbatim>\<open>std::signbit\<close>, on the values whose sign is modelled.\<close>

fun sign_bit :: "double \<Rightarrow> bool" where
  "sign_bit (Finite s m e) = s"
| "sign_bit (Infinity s) = s"
| "sign_bit NaN = False"

text \<open>\<open>ilog2 q\<close> is \<open>\<lfloor>log\<^sub>2 q\<rfloor>\<close> for a positive rational \<open>q\<close> (lemma \<open>ilog2_bounds\<close>).\<close>

definition ilog2 :: "rat \<Rightarrow> int" where
  "ilog2 q = (case quotient_of q of (p, d) \<Rightarrow>
     let k = bitlen p - bitlen d
     in if pow2 k \<le> q then k else k - 1)"

definition round_half_even :: "rat \<Rightarrow> int" where
  "round_half_even q =
     (let f = \<lfloor>q\<rfloor>; r = q - of_int f
      in if r < 1 / 2 then f else if 1 / 2 < r then f + 1
         else if even f then f else f + 1)"

text \<open>A rounded significand of 0 is an underflow to zero, one of \<open>2\<^sup>5\<^sup>3\<close> carries into the
  next exponent, and an exponent above 971 is an overflow, which rounds to infinity.\<close>

definition normalise :: "bool \<Rightarrow> int \<Rightarrow> int \<Rightarrow> double" where
  "normalise s n e =
     (if n = 0 then Finite s 0 0
      else if n = 2 ^ 53 then (if 971 < e + 1 then Infinity s else Finite s (2 ^ 52) (e + 1))
      else if 971 < e then Infinity s else Finite s n e)"

text \<open>Rounding the magnitude \<open>q \<ge> 0\<close> of an exact result whose sign is \<open>s\<close>. A result too
  small for the format rounds to a zero of that sign.\<close>

definition round_double :: "bool \<Rightarrow> rat \<Rightarrow> double" where
  "round_double s q =
     (if q = 0 then Finite s 0 0
      else let e = max (ilog2 q - 52) (- 1074)
           in normalise s (round_half_even (q / pow2 e)) e)"

text \<open>A literal of the source, or an \<^verbatim>\<open>int\<close> converted to \<^verbatim>\<open>double\<close>: the nearest
  double.\<close>

definition D :: "rat \<Rightarrow> double" where
  "D q = round_double (q < 0) \<bar>q\<bar>"

fun fneg :: "double \<Rightarrow> double" where
  "fneg NaN = NaN"
| "fneg (Infinity s) = Infinity (\<not> s)"
| "fneg (Finite s m e) = Finite (\<not> s) m e"

fun fabs :: "double \<Rightarrow> double" where
  "fabs NaN = NaN"
| "fabs (Infinity s) = Infinity False"
| "fabs (Finite s m e) = Finite False m e"

fun fadd :: "double \<Rightarrow> double \<Rightarrow> double" where
  "fadd NaN y = NaN"
| "fadd (Infinity s) NaN = NaN"
| "fadd (Infinity s) (Infinity t) = (if s = t then Infinity s else NaN)"
| "fadd (Infinity s) (Finite t n f) = Infinity s"
| "fadd (Finite s m e) NaN = NaN"
| "fadd (Finite s m e) (Infinity t) = Infinity t"
| "fadd (Finite s m e) (Finite t n f) =
     (let r = valof (Finite s m e) + valof (Finite t n f)
      in if r = 0 then Finite (s \<and> t) 0 0 else round_double (r < 0) \<bar>r\<bar>)"

definition fsub :: "double \<Rightarrow> double \<Rightarrow> double" where
  "fsub x y = fadd x (fneg y)"

fun fmul :: "double \<Rightarrow> double \<Rightarrow> double" where
  "fmul NaN y = NaN"
| "fmul (Infinity s) NaN = NaN"
| "fmul (Infinity s) (Infinity t) = Infinity (s \<noteq> t)"
| "fmul (Infinity s) (Finite t n f) = (if n = 0 then NaN else Infinity (s \<noteq> t))"
| "fmul (Finite s m e) NaN = NaN"
| "fmul (Finite s m e) (Infinity t) = (if m = 0 then NaN else Infinity (s \<noteq> t))"
| "fmul (Finite s m e) (Finite t n f) =
     round_double (s \<noteq> t) (mag (Finite s m e) * mag (Finite t n f))"

fun fdiv :: "double \<Rightarrow> double \<Rightarrow> double" where
  "fdiv NaN y = NaN"
| "fdiv (Infinity s) NaN = NaN"
| "fdiv (Infinity s) (Infinity t) = NaN"
| "fdiv (Infinity s) (Finite t n f) = Infinity (s \<noteq> t)"
| "fdiv (Finite s m e) NaN = NaN"
| "fdiv (Finite s m e) (Infinity t) = Finite (s \<noteq> t) 0 0"
| "fdiv (Finite s m e) (Finite t n f) =
     (if n = 0 then (if m = 0 then NaN else Infinity (s \<noteq> t))
      else round_double (s \<noteq> t) (mag (Finite s m e) / mag (Finite t n f)))"

text \<open>The comparisons \<^verbatim>\<open>==\<close> and \<^verbatim>\<open><\<close>: false as soon as an operand is a NaN, and
  \<open>-0.0 == 0.0\<close>.\<close>

fun feq :: "double \<Rightarrow> double \<Rightarrow> bool" where
  "feq (Infinity s) (Infinity t) = (s = t)"
| "feq (Finite s m e) (Finite t n f) = (valof (Finite s m e) = valof (Finite t n f))"
| "feq x y = False"

fun flt :: "double \<Rightarrow> double \<Rightarrow> bool" where
  "flt (Infinity s) (Infinity t) = (s \<and> \<not> t)"
| "flt (Infinity s) (Finite t n f) = s"
| "flt (Finite s m e) (Infinity t) = (\<not> t)"
| "flt (Finite s m e) (Finite t n f) = (valof (Finite s m e) < valof (Finite t n f))"
| "flt x y = False"

definition fle :: "double \<Rightarrow> double \<Rightarrow> bool" where
  "fle x y = (flt x y \<or> feq x y)"

text \<open>\<^verbatim>\<open>std::sqrt\<close> is correctly rounded. \<open>isqrt n\<close> is \<open>\<lfloor>\<surd>n\<rfloor>\<close>, digit by digit in base 2;
  \<open>sqrt_round q\<close> picks the significand \<open>n\<close> with \<open>n \<sqdot> 2\<^sup>e\<close> nearest to \<open>\<surd>q\<close> by comparing \<open>q\<close>
  with the square of the midpoint.\<close>

function isqrt :: "int \<Rightarrow> int" where
  "isqrt n =
     (if n \<le> 0 then 0
      else let r = 2 * isqrt (n div 4)
           in if (r + 1) * (r + 1) \<le> n then r + 1 else r)"
  by pat_completeness auto
termination
  by (relation "measure nat") auto

declare isqrt.simps [simp del]

definition sqrt_round :: "rat \<Rightarrow> double" where
  "sqrt_round q =
     (let e = max (ilog2 q div 2 - 52) (- 1074);
          x = q / pow2 (2 * e);
          n0 = isqrt \<lfloor>x\<rfloor>;
          h = of_int n0 + 1 / 2
      in normalise False
           (if x < h * h then n0 else if h * h < x then n0 + 1
            else if even n0 then n0 else n0 + 1) e)"

fun fsqrt :: "double \<Rightarrow> double" where
  "fsqrt NaN = NaN"
| "fsqrt (Infinity s) = (if s then NaN else Infinity False)"
| "fsqrt (Finite s m e) =
     (if m = 0 then Finite s m e else if s then NaN else sqrt_round (mag (Finite s m e)))"

text \<open>\<^verbatim>\<open>std::cos\<close>, \<^verbatim>\<open>std::sin\<close> and \<^verbatim>\<open>std::atan2\<close> belong to the platform's math
  library, whose results are not fixed by IEEE 754. They are parameters of the model.\<close>

record libm =
  std_cos :: "double \<Rightarrow> double"
  std_sin :: "double \<Rightarrow> double"
  std_atan2 :: "double \<Rightarrow> double \<Rightarrow> double"

section \<open>\<^verbatim>\<open>math/complex_numbers.cpp\<close>: class \<open>Complex\<close>\<close>

text \<open>
  The data members \<^verbatim>\<open>real\<close> and \<^verbatim>\<open>imaginary\<close>; the field \<open>real_m\<close> carries a suffix
  because \<open>real\<close> is taken in HOL. The getters \<^verbatim>\<open>real_()\<close> and \<^verbatim>\<open>imag_()\<close> are
  \<open>real_get\<close> and \<open>imag_get\<close> (a name cannot end with an underscore here).
\<close>

record Complex =
  real_m :: double
  imaginary :: double

definition real_get :: "Complex \<Rightarrow> double" where
  "real_get c = real_m c"

definition imag_get :: "Complex \<Rightarrow> double" where
  "imag_get c = imaginary c"

text \<open>The constructor \<^verbatim>\<open>Complex(x, y, is_polar)\<close>.\<close>

definition Complex_ctor :: "libm \<Rightarrow> double \<Rightarrow> double \<Rightarrow> bool \<Rightarrow> Complex" where
  "Complex_ctor lm x y is_polar =
     (if \<not> is_polar then \<lparr>real_m = x, imaginary = y\<rparr>
      else \<lparr>real_m = fmul x (std_cos lm y), imaginary = fmul x (std_sin lm y)\<rparr>)"

text \<open>\<^verbatim>\<open>Complex(x, y)\<close> with the default \<^verbatim>\<open>is_polar = false\<close>, as the operators call it:
  the rectangular branch, which needs no math library (lemma \<open>Complex_ctor_rect\<close>). The
  copy constructor and the assignment operator copy the two members; values are passed
  by value here and need neither.\<close>

definition Complex_xy :: "double \<Rightarrow> double \<Rightarrow> Complex" where
  "Complex_xy x y = \<lparr>real_m = x, imaginary = y\<rparr>"

definition abs_c :: "Complex \<Rightarrow> double" where
  "abs_c c = fsqrt (fadd (fmul (real_m c) (real_m c)) (fmul (imaginary c) (imaginary c)))"

definition arg_c :: "libm \<Rightarrow> Complex \<Rightarrow> double" where
  "arg_c lm c = std_atan2 lm (imaginary c) (real_m c)"

text \<open>
  The arithmetic operators do not call the getter of their argument, they only name it:
  \<^verbatim>\<open>real + other.real_\<close>, \<^verbatim>\<open>other.real_ * other.real_\<close>. The expression \<^verbatim>\<open>other.real_\<close>
  denotes the member function \<^verbatim>\<open>real_\<close> itself. It is not a number, the built-in \<^verbatim>\<open>+\<close>,
  \<^verbatim>\<open>-\<close> and \<^verbatim>\<open>*\<close> do not take it, and a program that uses it so is ill-formed: the
  compiler rejects it and the operator computes nothing, whatever its arguments. So an
  operand of these operators is a number or a member function that was named and not
  called, and an expression has a value or is ill-formed.
\<close>

datatype error = DivisionByZero | Ill_formed

datatype operand = Number double | Member_function

text \<open>\<^verbatim>\<open>other.real_\<close>, without the parentheses of a call.\<close>

definition real_uncalled :: "Complex \<Rightarrow> operand" where
  "real_uncalled other = Member_function"

fun rvalue :: "operand \<Rightarrow> error + double" where
  "rvalue (Number d) = Inr d"
| "rvalue Member_function = Inl Ill_formed"

text \<open>A built-in binary operator applied to two expressions, and the call \<^verbatim>\<open>Complex(x, y)\<close>
  on two expressions.\<close>

definition binary ::
    "(double \<Rightarrow> double \<Rightarrow> double) \<Rightarrow> error + double \<Rightarrow> error + double \<Rightarrow> error + double" where
  "binary f x y =
     (case x of Inl e \<Rightarrow> Inl e | Inr a \<Rightarrow> (case y of Inl e \<Rightarrow> Inl e | Inr b \<Rightarrow> Inr (f a b)))"

definition construct :: "error + double \<Rightarrow> error + double \<Rightarrow> error + Complex" where
  "construct x y =
     (case x of Inl e \<Rightarrow> Inl e
      | Inr a \<Rightarrow> (case y of Inl e \<Rightarrow> Inl e | Inr b \<Rightarrow> Inr (Complex_xy a b)))"

definition operator_add :: "Complex \<Rightarrow> Complex \<Rightarrow> error + Complex" where
  "operator_add this other =
     construct
       (binary fadd (rvalue (Number (real_m this))) (rvalue (real_uncalled other)))
       (binary fadd (rvalue (Number (imaginary this))) (rvalue (Number (imaginary other))))"

definition operator_sub :: "Complex \<Rightarrow> Complex \<Rightarrow> error + Complex" where
  "operator_sub this other =
     construct
       (binary fsub (rvalue (Number (real_m this))) (rvalue (real_uncalled other)))
       (binary fsub (rvalue (Number (imaginary this))) (rvalue (Number (imaginary other))))"

definition operator_mul :: "Complex \<Rightarrow> Complex \<Rightarrow> error + Complex" where
  "operator_mul this other =
     construct
       (binary fsub
          (binary fmul (rvalue (Number (real_m this))) (rvalue (real_uncalled other)))
          (binary fmul (rvalue (Number (imaginary this))) (rvalue (Number (imaginary other)))))
       (binary fadd
          (binary fmul (rvalue (Number (real_m this))) (rvalue (Number (imaginary other))))
          (binary fmul (rvalue (Number (imaginary this))) (rvalue (real_uncalled other))))"

text \<open>\<^verbatim>\<open>operator~\<close>, the conjugate.\<close>

definition operator_tilde :: "Complex \<Rightarrow> Complex" where
  "operator_tilde this = Complex_xy (real_m this) (fneg (imaginary this))"

text \<open>\<^verbatim>\<open>operator/\<close> throws \<^verbatim>\<open>std::invalid_argument\<close>, the error \<open>DivisionByZero\<close>. Its
  first statement computes the denominator from \<^verbatim>\<open>other.real_ * other.real_\<close>.\<close>

definition operator_div :: "Complex \<Rightarrow> Complex \<Rightarrow> error + Complex" where
  "operator_div this other =
     (case binary fadd
             (binary fmul (rvalue (real_uncalled other)) (rvalue (real_uncalled other)))
             (binary fmul (rvalue (Number (imaginary other))) (rvalue (Number (imaginary other)))) of
        Inl e \<Rightarrow> Inl e
      | Inr denominator \<Rightarrow>
          if feq denominator (D 0) then Inl DivisionByZero
          else (case operator_mul this (operator_tilde other) of
                  Inl e \<Rightarrow> Inl e
                | Inr numerator \<Rightarrow>
                    Inr (Complex_xy (fdiv (real_get numerator) denominator)
                                    (fdiv (imag_get numerator) denominator))))"

definition operator_eq :: "Complex \<Rightarrow> Complex \<Rightarrow> bool" where
  "operator_eq a b = (feq (real_get a) (real_get b) \<and> feq (imag_get a) (imag_get b))"

text \<open>\<^verbatim>\<open>operator<<\<close> inserts string literals and doubles into the stream. The stream is the
  list of what has been inserted so far; how the stream prints a \<^verbatim>\<open>double\<close> is the
  standard library's business and is left to \<open>render\<close>'s parameter.\<close>

datatype token = Str string | Num double

definition operator_shl :: "token list \<Rightarrow> Complex \<Rightarrow> token list" where
  "operator_shl os num =
     (let os1 = os @ [Str ''('', Num (real_get num)];
          os2 = (if flt (imag_get num) (D 0)
                 then os1 @ [Str '' - '', Num (fneg (imag_get num))]
                 else os1 @ [Str '' + '', Num (imag_get num)])
      in os2 @ [Str ''i)''])"

fun render :: "(double \<Rightarrow> string) \<Rightarrow> token list \<Rightarrow> string" where
  "render pr [] = []"
| "render pr (Str s # ts) = s @ render pr ts"
| "render pr (Num d # ts) = pr d @ render pr ts"

section \<open>Kirchhoff's voltage law: \<open>physics::kirchhoff_law::voltage_law_satisfied\<close>\<close>

text \<open>
  The function is a template over the element type \<^verbatim>\<open>T\<close>. What it uses of \<^verbatim>\<open>T\<close> is
  gathered in a record: \<^verbatim>\<open>static_cast<T>(0)\<close>, \<^verbatim>\<open>+\<close> (inside \<^verbatim>\<open>std::accumulate\<close>),
  \<^verbatim>\<open>std::abs\<close>, \<^verbatim>\<open><\<close> and \<^verbatim>\<open>static_cast<T>(1e-6)\<close>.
\<close>

record 'a element_type =
  cast_0 :: 'a
  plus_T :: "'a \<Rightarrow> 'a \<Rightarrow> 'a"
  abs_T :: "'a \<Rightarrow> 'a"
  less_T :: "'a \<Rightarrow> 'a \<Rightarrow> bool"
  cast_1e_6 :: 'a

definition voltage_law_satisfied :: "'a element_type \<Rightarrow> 'a list \<Rightarrow> bool" where
  "voltage_law_satisfied T voltages =
     (let sum = foldl (plus_T T) (cast_0 T) voltages
      in less_T T (abs_T T sum) (cast_1e_6 T))"

text \<open>\<^verbatim>\<open>T = double\<close>, the instance of the self-test.\<close>

definition T_double :: "double element_type" where
  "T_double =
     \<lparr>cast_0 = D 0, plus_T = fadd, abs_T = fabs, less_T = flt, cast_1e_6 = D (1 / 1000000)\<rparr>"

text \<open>\<^verbatim>\<open>T = int\<close>. Converting a \<^verbatim>\<open>double\<close> to \<^verbatim>\<open>int\<close> discards the fractional part.
  Signed overflow of the sum is undefined behaviour and is not modelled: the integers
  are unbounded.\<close>

definition double_to_int :: "double \<Rightarrow> int" where
  "double_to_int d = (if valof d < 0 then - \<lfloor>- valof d\<rfloor> else \<lfloor>valof d\<rfloor>)"

definition T_int :: "int element_type" where
  "T_int =
     \<lparr>cast_0 = 0, plus_T = (+), abs_T = abs, less_T = (<),
      cast_1e_6 = double_to_int (D (1 / 1000000))\<rparr>"

section \<open>Predicates used to state the properties\<close>

fun is_finite :: "double \<Rightarrow> bool" where
  "is_finite (Finite s m e) = True"
| "is_finite _ = False"

text \<open>\<open>-0.0\<close>, in any representation.\<close>

fun neg_zero :: "double \<Rightarrow> bool" where
  "neg_zero (Finite s m e) = (s \<and> m = 0)"
| "neg_zero _ = False"

text \<open>The sign bit is clear, or the value is a NaN.\<close>

fun sign_clear :: "double \<Rightarrow> bool" where
  "sign_clear NaN = True"
| "sign_clear (Infinity s) = (\<not> s)"
| "sign_clear (Finite s m e) = (\<not> s)"

text \<open>A finite double whose value lies in \<open>(-\<pi>, \<pi>]\<close>.\<close>

definition in_minus_pi_pi :: "double \<Rightarrow> bool" where
  "in_minus_pi_pi d =
     (is_finite d \<and> - pi < real_of_rat (valof d) \<and> real_of_rat (valof d) \<le> pi)"

text \<open>A stand-in for a math library, exact at the argument 0 and nowhere else; it only
  serves to instantiate statements that hold for every library.\<close>

definition libm_at_0 :: libm where
  "libm_at_0 =
     \<lparr>std_cos = (\<lambda>x. D 1), std_sin = (\<lambda>x. D 0),
      std_atan2 = (\<lambda>y x. if is_nan y \<or> is_nan x then NaN else D 0)\<rparr>"

section \<open>The math library's \<^verbatim>\<open>std::atan2\<close>\<close>

text \<open>The library is no code of this repository. Its \<^verbatim>\<open>atan2\<close> is modelled in four steps:
  rounding of a real number to an integer, rounding of a real number to a double, the exact
  angle, and the function itself.\<close>

text \<open>Modelled from the spec: the rounding inside \<^verbatim>\<open>std::atan2\<close>. Rounding of a real number to
  an integer, to nearest, ties to even: \<open>round_half_even\<close> on the reals.\<close>

definition round_half_even_real :: "real \<Rightarrow> int" where
  "round_half_even_real q =
     (let f = \<lfloor>q\<rfloor>; r = q - of_int f
      in if r < 1 / 2 then f else if 1 / 2 < r then f + 1
         else if even f then f else f + 1)"

text \<open>Modelled from the spec: the rounding inside \<^verbatim>\<open>std::atan2\<close>. Rounding of a magnitude
  \<open>r \<ge> 0\<close> to a double of sign \<open>s\<close>: \<open>round_double\<close> on the reals, with the exponent read off
  the binary logarithm (\<open>round_real_of_rat\<close> shows that the two agree on the rationals).\<close>

definition round_real :: "bool \<Rightarrow> real \<Rightarrow> double" where
  "round_real s r =
     (if r = 0 then Finite s 0 0
      else let e = max (\<lfloor>log 2 r\<rfloor> - 52) (- 1074)
           in normalise s (round_half_even_real (r / real_of_rat (pow2 e))) e)"

text \<open>Modelled from the spec: the exact angle inside \<^verbatim>\<open>std::atan2\<close>, ``the angle, in radians,
  of a complex value relative to the positive real axis''. It is the angle between the
  positive real axis and the point \<open>(x, \<bar>y\<bar>)\<close> of the upper half plane, a real number in
  \<open>[0, \<pi>]\<close>. On a zero \<open>y\<close> it is \<open>0\<close> or \<open>\<pi>\<close> with the sign bit of \<open>x\<close>, also when \<open>x\<close> is a
  zero; an infinity lies in the direction of its axis, and two infinities on a diagonal
  (ISO C, F.10.1.4).\<close>

fun abs_angle :: "double \<Rightarrow> double \<Rightarrow> real" where
  "abs_angle (Infinity s) (Infinity t) = (if t then 3 * pi / 4 else pi / 4)"
| "abs_angle (Infinity s) (Finite t n f) = pi / 2"
| "abs_angle (Finite s m e) (Infinity t) = (if t then pi else 0)"
| "abs_angle (Finite s m e) (Finite t n f) =
     (if m = 0 then (if t then pi else 0)
      else arccos (real_of_rat (valof (Finite t n f))
             / sqrt ((real_of_rat (valof (Finite t n f)))\<^sup>2 + (real_of_rat (valof (Finite s m e)))\<^sup>2)))"
| "abs_angle y x = 0"

text \<open>Modelled from the spec: \<^verbatim>\<open>std::atan2\<close>, the two-argument arctangent of the platform's
  math library, which \<^verbatim>\<open>Complex::arg\<close> calls and which is no code of this repository. The spec
  asks for the ``two-argument arctangent of (imaginary, real), range \<open>(-\<pi>, \<pi>]\<close>, matching the
  standard atan2 convention including sign handling at axis boundaries'': the angle of the
  point \<open>(x, y)\<close>, rounded to the nearest double, with the sign of \<open>y\<close>, and a NaN when an
  argument is a NaN. The angle is a real number, so the definition specifies the result; its
  values on the axes are computed in \<open>round_real_pi\<close> and \<open>round_real_half_pi\<close>.\<close>

definition atan2_annex_f :: "double \<Rightarrow> double \<Rightarrow> double" where
  "atan2_annex_f y x =
     (if is_nan y \<or> is_nan x then NaN else round_real (sign_bit y) (abs_angle y x))"

text \<open>Modelled from the spec: a math library whose \<^verbatim>\<open>std::atan2\<close> is the one above, the
  rest of it left as it is.\<close>

definition annex_f :: "libm \<Rightarrow> libm" where
  "annex_f lm = lm\<lparr>std_atan2 := atan2_annex_f\<rparr>"

section \<open>Facts about the arithmetic\<close>

lemma D_0: "D 0 = Finite False 0 0"
  by (simp add: D_def round_double_def)

lemma Complex_ctor_rect: "Complex_ctor lm x y False = Complex_xy x y"
  by (simp add: Complex_ctor_def Complex_xy_def)

lemma pow2_pos: "0 < pow2 e"
  by (simp add: pow2_def)

lemma mag_Finite_nonneg: "0 \<le> \<bar>rat_of_int m\<bar> * pow2 e"
  by (simp add: pow2_pos less_imp_le)

lemma mag_nonneg: "0 \<le> mag x"
  by (cases x) (simp_all add: mag_Finite_nonneg)

lemma sign_clear_normalise: "sign_clear (normalise False n e)"
  by (simp add: normalise_def)

lemma not_nan_normalise: "\<not> is_nan (normalise s n e)"
  by (simp add: normalise_def)

lemma fneg_normalise: "fneg (normalise s n e) = normalise (\<not> s) n e"
  by (simp add: normalise_def)

lemma sign_clear_round: "sign_clear (round_double False q)"
  by (cases "q = 0") (simp_all add: round_double_def Let_def sign_clear_normalise)

lemma not_nan_round: "\<not> is_nan (round_double s q)"
  by (cases "q = 0") (simp_all add: round_double_def Let_def not_nan_normalise)

lemma fneg_round: "fneg (round_double s q) = round_double (\<not> s) q"
  by (cases "q = 0") (simp_all add: round_double_def Let_def fneg_normalise)

lemma fneg_fneg: "fneg (fneg x) = x"
  by (cases x) simp_all

lemma fmul_fneg: "fmul (fneg x) y = fneg (fmul x y)"
  by (cases x; cases y) (auto simp: fneg_round)

lemma sign_clear_square: "sign_clear (fmul x x)"
  by (cases x) (simp_all add: sign_clear_round)

lemma not_nan_square: "\<not> is_nan x \<Longrightarrow> \<not> is_nan (fmul x x)"
  by (cases x) (simp_all add: not_nan_round)

lemma mag_sum_not_neg:
  "(\<bar>rat_of_int m\<bar> * pow2 e + \<bar>rat_of_int n\<bar> * pow2 f < 0) = False"
  using mag_Finite_nonneg [of m e] mag_Finite_nonneg [of n f] by simp

lemma fadd_nonneg:
  "fadd (Finite False m e) (Finite False n f) =
     (let r = mag (Finite False m e) + mag (Finite False n f)
      in if r = 0 then Finite False 0 0 else round_double False r)"
proof -
  have "0 \<le> \<bar>rat_of_int m\<bar> * pow2 e + \<bar>rat_of_int n\<bar> * pow2 f"
    by (intro add_nonneg_nonneg mag_Finite_nonneg)
  then show ?thesis
    by (simp add: Let_def mag_sum_not_neg)
qed

lemma sign_clear_fadd: "sign_clear x \<Longrightarrow> sign_clear y \<Longrightarrow> sign_clear (fadd x y)"
  by (cases x; cases y) (simp_all add: fadd_nonneg Let_def sign_clear_round del: fadd.simps(7))

lemma not_nan_fadd:
  "sign_clear x \<Longrightarrow> sign_clear y \<Longrightarrow> \<not> is_nan x \<Longrightarrow> \<not> is_nan y \<Longrightarrow> \<not> is_nan (fadd x y)"
  by (cases x; cases y) (simp_all add: fadd_nonneg Let_def not_nan_round del: fadd.simps(7))

lemma sign_clear_sqrt_round: "sign_clear (sqrt_round q)"
  by (simp add: sqrt_round_def Let_def sign_clear_normalise)

lemma not_nan_sqrt_round: "\<not> is_nan (sqrt_round q)"
  by (simp add: sqrt_round_def Let_def not_nan_normalise)

lemma sign_clear_fsqrt: "sign_clear x \<Longrightarrow> sign_clear (fsqrt x)"
  by (cases x) (simp_all add: sign_clear_sqrt_round)

lemma not_nan_fsqrt: "sign_clear x \<Longrightarrow> \<not> is_nan x \<Longrightarrow> \<not> is_nan (fsqrt x)"
  by (cases x) (simp_all add: not_nan_sqrt_round)

lemma sign_clear_not_less: "sign_clear x \<Longrightarrow> \<not> flt x (D 0)"
  using mag_nonneg [of x] by (cases x) (auto simp: D_0)

lemma sign_clear_fle: "sign_clear x \<Longrightarrow> \<not> is_nan x \<Longrightarrow> fle (D 0) x"
  using mag_nonneg [of x] by (cases x) (auto simp: D_0 fle_def)

lemma pow2_powi: "pow2 e = 2 powi e"
  by (simp add: pow2_def power_int_def power_one_over inverse_eq_divide)

lemma pow2_add: "pow2 (a + b) = pow2 a * pow2 b"
  by (simp add: pow2_powi power_int_add)

lemma pow2_diff: "pow2 (a - b) = pow2 a / pow2 b"
  by (simp add: pow2_powi power_int_diff)

lemma pow2_mono: "a \<le> b \<Longrightarrow> pow2 a \<le> pow2 b"
  by (simp add: pow2_powi power_int_increasing)

lemma pow2_strict_mono: "a < b \<Longrightarrow> pow2 a < pow2 b"
  by (simp add: pow2_powi power_int_strict_increasing)

lemma pow2_less_cancel: "pow2 a < pow2 b \<Longrightarrow> a < b"
  using pow2_mono [of b a] by (cases "a < b") simp_all

lemma pow2_of_nat: "pow2 (int n) = 2 ^ n"
  by (simp add: pow2_def)

lemma pow2_nat: "0 \<le> e \<Longrightarrow> pow2 e = 2 ^ nat e"
  by (simp add: pow2_def)

lemma bitlen_pow2_bounds:
  assumes "0 < p"
  shows "pow2 (bitlen p - 1) \<le> rat_of_int p" and "rat_of_int p < pow2 (bitlen p)"
proof -
  from assms have b: "1 \<le> bitlen p"
    using bitlen_eq_zero_iff [of p] bitlen_nonneg [of p] by linarith
  from bitlen_bounds [OF assms]
  have lo: "2 ^ nat (bitlen p - 1) \<le> p" and hi: "p < 2 ^ nat (bitlen p)" by simp_all
  from lo have "rat_of_int (2 ^ nat (bitlen p - 1)) \<le> rat_of_int p"
    by (simp only: of_int_le_iff)
  with b show "pow2 (bitlen p - 1) \<le> rat_of_int p"
    by (simp add: pow2_nat)
  from hi have "rat_of_int p < rat_of_int (2 ^ nat (bitlen p))"
    by (simp only: of_int_less_iff)
  with b show "rat_of_int p < pow2 (bitlen p)"
    by (simp add: pow2_nat)
qed

lemma ilog2_bounds:
  assumes "0 < q"
  shows "pow2 (ilog2 q) \<le> q" and "q < pow2 (ilog2 q + 1)"
proof -
  obtain p d where pd: "quotient_of q = (p, d)"
    by (cases "quotient_of q")
  have d: "0 < d" using pd by (rule quotient_of_denom_pos)
  have q: "q = rat_of_int p / rat_of_int d" using pd by (rule quotient_of_div)
  with assms d have p: "0 < p"
    by (simp add: zero_less_divide_iff)
  define k where "k = bitlen p - bitlen d"
  have "q < pow2 (bitlen p) / pow2 (bitlen d - 1)"
    unfolding q using p d bitlen_pow2_bounds [of p] bitlen_pow2_bounds [of d]
    by (intro frac_less) (simp_all add: pow2_pos)
  then have up: "q < pow2 (k + 1)"
    by (simp add: k_def pow2_diff [symmetric] algebra_simps)
  have "pow2 (bitlen p - 1) / pow2 (bitlen d) \<le> q"
    unfolding q using p d bitlen_pow2_bounds [of p] bitlen_pow2_bounds [of d]
    by (intro frac_le) (simp_all add: pow2_pos less_imp_le)
  then have lo: "pow2 (k - 1) \<le> q"
    by (simp add: k_def pow2_diff [symmetric] algebra_simps)
  have il: "ilog2 q = (if pow2 k \<le> q then k else k - 1)"
    by (simp add: ilog2_def pd k_def)
  show "pow2 (ilog2 q) \<le> q"
    using lo by (simp add: il)
  show "q < pow2 (ilog2 q + 1)"
    using up by (simp add: il not_le)
qed

lemma ilog2_unique:
  assumes "0 < q" and "pow2 k \<le> q" and "q < pow2 (k + 1)"
  shows "ilog2 q = k"
proof -
  from ilog2_bounds [OF assms(1)] assms
  have a: "pow2 (ilog2 q) < pow2 (k + 1)" and b: "pow2 k < pow2 (ilog2 q + 1)"
    by simp_all
  have "ilog2 q < k + 1"
    using a by (rule pow2_less_cancel)
  moreover have "k < ilog2 q + 1"
    using b by (rule pow2_less_cancel)
  ultimately show ?thesis by simp
qed

lemma ilog2_less:
  assumes "0 < q" and "q < pow2 k"
  shows "ilog2 q < k"
  using ilog2_bounds(1) [OF assms(1)] assms(2) by (intro pow2_less_cancel) simp

lemma round_half_even_small:
  assumes "0 \<le> x" and "x \<le> 1 / 2"
  shows "round_half_even x = 0"
proof -
  from assms have "\<lfloor>x\<rfloor> = 0" by (simp add: floor_eq_iff)
  with assms show ?thesis by (simp add: round_half_even_def)
qed

lemma round_double_underflow:
  assumes "0 < q" and "q < pow2 (- 1075)"
  shows "round_double s q = Finite s 0 0"
proof -
  from assms have "ilog2 q < - 1075" by (rule ilog2_less)
  then have e: "max (ilog2 q - 52) (- 1074) = - 1074" by simp
  from assms(2) have "q / pow2 (- 1074) < pow2 (- 1075) / pow2 (- 1074)"
    by (simp add: divide_strict_right_mono pow2_pos)
  also have "\<dots> = pow2 (- 1)"
    by (simp add: pow2_diff [symmetric])
  also have "\<dots> = 1 / 2"
    by (simp add: pow2_def)
  finally have "q / pow2 (- 1074) < 1 / 2" .
  moreover from assms(1) have "0 \<le> q / pow2 (- 1074)"
    by (simp add: pow2_pos less_imp_le)
  ultimately have "round_half_even (q / pow2 (- 1074)) = 0"
    by (intro round_half_even_small) simp_all
  with assms(1) show ?thesis
    by (simp add: round_double_def e normalise_def)
qed

lemma square_underflows:
  "fmul (Finite False (2 ^ 52) (- 652)) (Finite False (2 ^ 52) (- 652)) = Finite False 0 0"
proof -
  have "(2::rat) ^ 52 = pow2 52"
    by (simp add: pow2_def)
  then have m: "mag (Finite False (2 ^ 52) (- 652)) = pow2 (- 600)"
    using pow2_add [of 52 "- 652"] by simp
  have "pow2 (- 600) * pow2 (- 600) = pow2 (- 1200)"
    using pow2_add [of "- 600" "- 600"] by simp
  moreover have "pow2 (- 1200) < pow2 (- 1075)"
    by (rule pow2_strict_mono) simp
  ultimately have "round_double False (mag (Finite False (2 ^ 52) (- 652)) *
      mag (Finite False (2 ^ 52) (- 652))) = Finite False 0 0"
    using round_double_underflow [of "pow2 (- 1200)" False]
    by (simp only: m pow2_pos)
  then show ?thesis
    by (simp only: fmul.simps simp_thms)
qed

lemma round_half_even_of_int: "round_half_even (rat_of_int n) = n"
  by (simp add: round_half_even_def)

lemma round_half_even_nearest:
  "\<bar>rat_of_int (round_half_even x) - x\<bar> \<le> \<bar>rat_of_int k - x\<bar>"
proof -
  define f where "f = \<lfloor>x\<rfloor>"
  have lo: "rat_of_int f \<le> x" and hi: "x < rat_of_int f + 1"
    using floor_correct [of x] by (simp_all add: f_def)
  have "k \<le> f \<or> f + 1 \<le> k" by linarith
  then have k: "rat_of_int k \<le> rat_of_int f \<or> rat_of_int f + 1 \<le> rat_of_int k"
    by (metis of_int_1 of_int_add of_int_le_iff)
  have r: "round_half_even x =
      (if x - rat_of_int f < 1 / 2 then f else if 1 / 2 < x - rat_of_int f then f + 1
       else if even f then f else f + 1)"
    by (simp add: round_half_even_def f_def Let_def)
  show ?thesis
    using lo hi k unfolding r by (auto split: if_splits)
qed

lemma round_half_even_ge: "rat_of_int a \<le> x \<Longrightarrow> a \<le> round_half_even x"
proof -
  assume "rat_of_int a \<le> x"
  then have "a \<le> \<lfloor>x\<rfloor>" by (simp add: le_floor_iff)
  moreover have "\<lfloor>x\<rfloor> \<le> round_half_even x"
    by (simp add: round_half_even_def Let_def)
  ultimately show ?thesis by simp
qed

lemma round_half_even_le: "x \<le> rat_of_int b \<Longrightarrow> round_half_even x \<le> b"
proof -
  assume b: "x \<le> rat_of_int b"
  have lo: "rat_of_int \<lfloor>x\<rfloor> \<le> x" by simp
  show ?thesis
  proof (cases "x = rat_of_int \<lfloor>x\<rfloor>")
    case True
    then have "round_half_even x = \<lfloor>x\<rfloor>"
      using round_half_even_of_int [of "\<lfloor>x\<rfloor>"] by simp
    moreover from b have "\<lfloor>x\<rfloor> \<le> b" by (simp add: floor_le_iff)
    ultimately show ?thesis by simp
  next
    case False
    with lo b have "rat_of_int \<lfloor>x\<rfloor> < rat_of_int b" by linarith
    then have "\<lfloor>x\<rfloor> < b" by (simp only: of_int_less_iff)
    then have "\<lfloor>x\<rfloor> + 1 \<le> b" by simp
    moreover have "round_half_even x \<le> \<lfloor>x\<rfloor> + 1"
      by (simp add: round_half_even_def Let_def)
    ultimately show ?thesis by simp
  qed
qed

lemma pow2_52: "pow2 52 = 2 ^ 52" and pow2_53: "pow2 53 = 2 ^ 53"
  by (simp_all add: pow2_def)

text \<open>The scaled magnitude of a positive rational: at least \<open>2\<^sup>5\<^sup>2\<close> and below \<open>2\<^sup>5\<^sup>3\<close> in
  the normal range, below \<open>2\<^sup>5\<^sup>2\<close> in the subnormal range.\<close>

lemma scaled_normal:
  assumes "0 < q" and "- 1074 \<le> ilog2 q - 52"
  shows "pow2 52 \<le> q / pow2 (ilog2 q - 52)" and "q / pow2 (ilog2 q - 52) < pow2 53"
proof -
  have "pow2 (ilog2 q) / pow2 (ilog2 q - 52) \<le> q / pow2 (ilog2 q - 52)"
    using ilog2_bounds(1) [OF assms(1)] by (simp add: divide_right_mono pow2_pos less_imp_le)
  then show "pow2 52 \<le> q / pow2 (ilog2 q - 52)"
    by (simp add: pow2_diff [symmetric])
  have "q / pow2 (ilog2 q - 52) < pow2 (ilog2 q + 1) / pow2 (ilog2 q - 52)"
    using ilog2_bounds(2) [OF assms(1)] by (simp add: divide_strict_right_mono pow2_pos)
  then show "q / pow2 (ilog2 q - 52) < pow2 53"
    by (simp add: pow2_diff [symmetric])
qed

lemma scaled_subnormal:
  assumes "0 < q" and "ilog2 q - 52 < - 1074"
  shows "q / pow2 (- 1074) < pow2 52"
proof -
  have "q / pow2 (- 1074) < pow2 (ilog2 q + 1) / pow2 (- 1074)"
    using ilog2_bounds(2) [OF assms(1)] by (simp add: divide_strict_right_mono pow2_pos)
  also have "\<dots> = pow2 (ilog2 q + 1 - (- 1074))"
    by (simp only: pow2_diff)
  also have "\<dots> \<le> pow2 52"
    using assms(2) by (intro pow2_mono) simp
  finally show ?thesis .
qed

lemma significand_normal:
  assumes "0 < q" and "- 1074 \<le> ilog2 q - 52"
  shows "2 ^ 52 \<le> round_half_even (q / pow2 (ilog2 q - 52))"
    and "round_half_even (q / pow2 (ilog2 q - 52)) \<le> 2 ^ 53"
proof -
  have "rat_of_int (2 ^ 52) \<le> q / pow2 (ilog2 q - 52)"
    using scaled_normal(1) [OF assms] by (simp add: pow2_52)
  then show "2 ^ 52 \<le> round_half_even (q / pow2 (ilog2 q - 52))"
    by (rule round_half_even_ge)
  have "q / pow2 (ilog2 q - 52) \<le> rat_of_int (2 ^ 53)"
    using scaled_normal(2) [OF assms] by (simp add: pow2_53)
  then show "round_half_even (q / pow2 (ilog2 q - 52)) \<le> 2 ^ 53"
    by (rule round_half_even_le)
qed

lemma significand_subnormal:
  assumes "0 < q" and "ilog2 q - 52 < - 1074"
  shows "0 \<le> round_half_even (q / pow2 (- 1074))"
    and "round_half_even (q / pow2 (- 1074)) \<le> 2 ^ 52"
proof -
  have "rat_of_int 0 \<le> q / pow2 (- 1074)"
    using assms(1) by (simp add: pow2_pos less_imp_le)
  then show "0 \<le> round_half_even (q / pow2 (- 1074))"
    by (rule round_half_even_ge)
  have "q / pow2 (- 1074) \<le> rat_of_int (2 ^ 52)"
    using scaled_subnormal [OF assms] by (simp add: pow2_52)
  then show "round_half_even (q / pow2 (- 1074)) \<le> 2 ^ 52"
    by (rule round_half_even_le)
qed

lemma valid_normalise_normal:
  "2 ^ 52 \<le> n \<Longrightarrow> n \<le> 2 ^ 53 \<Longrightarrow> - 1074 \<le> e \<Longrightarrow> valid_double (normalise s n e)"
  by (simp add: normalise_def)

lemma valid_normalise_subnormal:
  "0 \<le> n \<Longrightarrow> n \<le> 2 ^ 52 \<Longrightarrow> valid_double (normalise s n (- 1074))"
  by (simp add: normalise_def)

text \<open>Rounding produces a canonical double.\<close>

lemma valid_round_double: "0 \<le> q \<Longrightarrow> valid_double (round_double s q)"
proof (cases "q = 0")
  case True
  then show ?thesis by (simp add: round_double_def)
next
  case False
  assume "0 \<le> q"
  with False have q: "0 < q" by simp
  show ?thesis
  proof (cases "- 1074 \<le> ilog2 q - 52")
    case True
    then have "max (ilog2 q - 52) (- 1074) = ilog2 q - 52" by simp
    with False show ?thesis
      using significand_normal [OF q True] True
      by (simp add: round_double_def Let_def valid_normalise_normal)
  next
    case F: False
    then have "max (ilog2 q - 52) (- 1074) = - 1074" by simp
    with False show ?thesis
      using significand_subnormal [of q] q F
      by (simp add: round_double_def Let_def valid_normalise_subnormal)
  qed
qed

text \<open>A canonical double is the rounding of its own value: rounding changes only what
  the format cannot represent.\<close>

lemma exact_round_double:
  assumes "valid_double (Finite s m e)"
  shows "round_double s (mag (Finite s m e)) = Finite s m e"
proof (cases "m = 0")
  case True
  with assms show ?thesis by (simp add: round_double_def)
next
  case False
  with assms have m: "0 < m" "m < 2 ^ 53" and e: "- 1074 \<le> e" "e \<le> 971"
    and n: "e = - 1074 \<or> 2 ^ 52 \<le> m"
    by simp_all
  define q where "q = rat_of_int m * pow2 e"
  have q: "0 < q" using m by (simp add: q_def pow2_pos)
  have mq: "mag (Finite s m e) = q" using m by (simp add: q_def)
  have up: "q < pow2 (e + 52 + 1)"
  proof -
    from m have "rat_of_int m < rat_of_int (2 ^ 53)" by (simp only: of_int_less_iff)
    then have "rat_of_int m < pow2 53" by (simp add: pow2_53)
    then have "q < pow2 53 * pow2 e"
      unfolding q_def by (simp add: pow2_pos)
    moreover have "pow2 53 * pow2 e = pow2 (e + 52 + 1)"
      using pow2_add [of 53 e] by (simp add: add.commute)
    ultimately show ?thesis by simp
  qed
  have ex: "max (ilog2 q - 52) (- 1074) = e"
  proof (cases "2 ^ 52 \<le> m")
    case True
    then have "rat_of_int (2 ^ 52) \<le> rat_of_int m" by (simp only: of_int_le_iff)
    then have "pow2 52 \<le> rat_of_int m" by (simp add: pow2_52)
    then have "pow2 52 * pow2 e \<le> q"
      unfolding q_def by (simp add: pow2_pos)
    moreover have "pow2 52 * pow2 e = pow2 (e + 52)"
      using pow2_add [of 52 e] by (simp add: add.commute)
    ultimately have "pow2 (e + 52) \<le> q" by simp
    with up have "ilog2 q = e + 52" using q by (intro ilog2_unique)
    with e show ?thesis by simp
  next
    case F: False
    with n have e': "e = - 1074" by simp
    from F have "rat_of_int m < rat_of_int (2 ^ 52)" by (simp only: of_int_less_iff not_le)
    then have "rat_of_int m < pow2 52" by (simp add: pow2_52)
    then have "q < pow2 52 * pow2 e"
      unfolding q_def by (simp add: pow2_pos)
    moreover have "pow2 52 * pow2 (- 1074) = pow2 (- 1022)"
      using pow2_add [of 52 "- 1074"] by simp
    ultimately have "q < pow2 (- 1022)" using e' by simp
    with q have "ilog2 q < - 1022" by (rule ilog2_less)
    with e' show ?thesis by simp
  qed
  have "q / pow2 e = rat_of_int m"
    using pow2_pos [of e] by (simp add: q_def)
  then have "round_half_even (q / pow2 e) = m"
    by (simp add: round_half_even_of_int)
  with q m e show ?thesis
    by (simp add: mq round_double_def ex normalise_def del: mag.simps)
qed

lemma mag_normalise:
  assumes "0 \<le> n" and "is_finite (normalise s n e)"
  shows "mag (normalise s n e) = rat_of_int n * pow2 e"
proof -
  have "pow2 (e + 1) = 2 * pow2 e"
    using pow2_add [of e 1] by (simp add: pow2_def)
  with assms show ?thesis
    by (auto simp: normalise_def split: if_splits)
qed

text \<open>A canonical double with an exponent of at least \<open>e\<close>, or zero, is an integer multiple
  of \<open>2\<^sup>e\<close>.\<close>

lemma multiple_of_ulp:
  assumes "e \<le> e2 \<or> m = 0"
  shows "\<exists>k. mag (Finite t m e2) = rat_of_int k * pow2 e"
proof (cases "m = 0")
  case True
  then have "mag (Finite t m e2) = rat_of_int 0 * pow2 e" by simp
  then show ?thesis ..
next
  case False
  with assms have "0 \<le> e2 - e" by simp
  then have "pow2 (e2 - e) = rat_of_int (2 ^ nat (e2 - e))"
    by (simp add: pow2_nat)
  moreover have "pow2 e2 = pow2 (e2 - e) * pow2 e"
    using pow2_add [of "e2 - e" e] by simp
  ultimately have "mag (Finite t m e2) = rat_of_int (\<bar>m\<bar> * 2 ^ nat (e2 - e)) * pow2 e"
    by simp
  then show ?thesis ..
qed

text \<open>Round to nearest: when the rounding of \<open>q\<close> is finite, no canonical finite double is
  closer to \<open>q\<close>.\<close>

lemma round_double_nearest:
  assumes q0: "0 \<le> q" and fin: "is_finite (round_double s q)"
    and d: "valid_double (Finite t m e2)"
  shows "\<bar>mag (round_double s q) - q\<bar> \<le> \<bar>mag (Finite t m e2) - q\<bar>"
proof (cases "q = 0")
  case True
  then show ?thesis by (simp add: round_double_def)
next
  case False
  with q0 have q: "0 < q" by simp
  define e where "e = max (ilog2 q - 52) (- 1074)"
  define x where "x = q / pow2 e"
  define n where "n = round_half_even x"
  have r: "round_double s q = normalise s n e"
    using False by (simp add: round_double_def e_def x_def n_def Let_def)
  have "rat_of_int 0 \<le> x"
    using q by (simp add: x_def pow2_pos less_imp_le)
  then have n0: "0 \<le> n"
    unfolding n_def by (rule round_half_even_ge)
  have mr: "mag (round_double s q) = rat_of_int n * pow2 e"
    using fin n0 unfolding r by (intro mag_normalise)
  have qx: "q = x * pow2 e"
    using pow2_pos [of e] by (simp add: x_def)
  have scale: "\<bar>rat_of_int k * pow2 e - q\<bar> = \<bar>rat_of_int k - x\<bar> * pow2 e" for k
  proof -
    have "rat_of_int k * pow2 e - q = (rat_of_int k - x) * pow2 e"
      by (simp add: qx algebra_simps)
    then show ?thesis
      using pow2_pos [of e] by (simp add: abs_mult)
  qed
  have near: "\<bar>rat_of_int n * pow2 e - q\<bar> \<le> \<bar>rat_of_int k * pow2 e - q\<bar>" for k
    unfolding scale n_def
    using round_half_even_nearest [of x k] pow2_pos [of e]
    by (simp add: mult_right_mono less_imp_le)
  show ?thesis
  proof (cases "e \<le> e2 \<or> m = 0")
    case True
    then obtain k where "mag (Finite t m e2) = rat_of_int k * pow2 e"
      using multiple_of_ulp by blast
    with near [of k] show ?thesis by (simp only: mr)
  next
    case F: False
    then have e2: "e2 < e" and m0: "m \<noteq> 0" by simp_all
    with d have m: "0 < m" "m < 2 ^ 53" and e2lo: "- 1074 \<le> e2" by simp_all
    from e2 e2lo have en: "e = ilog2 q - 52"
      by (simp add: e_def max_def split: if_splits)
    from m have "rat_of_int m < rat_of_int (2 ^ 53)" by (simp only: of_int_less_iff)
    then have "rat_of_int m < pow2 53" by (simp add: pow2_53)
    then have "rat_of_int m * pow2 e2 < pow2 53 * pow2 e2"
      by (simp add: pow2_pos)
    also have "\<dots> = pow2 (53 + e2)"
      by (simp only: pow2_add)
    also have "\<dots> \<le> pow2 (ilog2 q)"
      using e2 en by (intro pow2_mono) simp
    finally have below: "mag (Finite t m e2) < pow2 (ilog2 q)"
      using m by simp
    have "pow2 (ilog2 q) = pow2 52 * pow2 e"
      using pow2_add [of 52 e] en by simp
    then have B: "pow2 (ilog2 q) = rat_of_int (2 ^ 52) * pow2 e"
      by (simp add: pow2_52)
    have "\<bar>rat_of_int n * pow2 e - q\<bar> \<le> \<bar>pow2 (ilog2 q) - q\<bar>"
      unfolding B by (rule near)
    also have "\<dots> = q - pow2 (ilog2 q)"
      using ilog2_bounds(1) [OF q] by simp
    also have "\<dots> \<le> \<bar>mag (Finite t m e2) - q\<bar>"
      using below by simp
    finally show ?thesis by (simp only: mr)
  qed
qed

text \<open>Ties go to the even significand.\<close>

lemma round_half_even_tie: "x - rat_of_int \<lfloor>x\<rfloor> = 1 / 2 \<Longrightarrow> even (round_half_even x)"
  by (simp add: round_half_even_def Let_def)

text \<open>Overflow: the result is an infinity exactly from \<open>(2\<^sup>5\<^sup>3 - 1/2) \<sqdot> 2\<^sup>9\<^sup>7\<^sup>1\<close> on, the midpoint
  between the largest double and \<open>2\<^sup>1\<^sup>0\<^sup>2\<^sup>4\<close>.\<close>

lemma round_double_overflow:
  assumes "0 < q"
  shows "(round_double s q = Infinity s) = ((2 ^ 53 - 1 / 2) * pow2 971 \<le> q)"
proof -
  define e where "e = max (ilog2 q - 52) (- 1074)"
  define x where "x = q / pow2 e"
  define n where "n = round_half_even x"
  have r: "round_double s q = normalise s n e"
    using assms by (simp add: round_double_def e_def x_def n_def Let_def)
  have qx: "q = x * pow2 e"
    using pow2_pos [of e] by (simp add: x_def)
  show ?thesis
  proof (cases "ilog2 q" "1023 :: int" rule: linorder_cases)
    case less
    then have e: "e \<le> 970" by (simp add: e_def)
    then have "normalise s n e \<noteq> Infinity s"
      by (simp add: normalise_def)
    moreover have "q < (2 ^ 53 - 1 / 2) * pow2 971"
    proof -
      from less have "ilog2 q + 1 \<le> 1023" by simp
      then have "pow2 (ilog2 q + 1) \<le> pow2 1023" by (rule pow2_mono)
      with ilog2_bounds(2) [OF assms] have "q < pow2 1023" by simp
      also have "pow2 1023 = pow2 52 * pow2 971"
        using pow2_add [of 52 971] by simp
      also have "\<dots> < (2 ^ 53 - 1 / 2) * pow2 971"
        by (simp add: pow2_52 pow2_pos)
      finally show ?thesis .
    qed
    ultimately show ?thesis by (simp add: r)
  next
    case greater
    then have e: "971 < e" and en: "e = ilog2 q - 52" by (simp_all add: e_def)
    have "2 ^ 52 \<le> n"
      using significand_normal(1) [of q] assms greater
      by (simp add: n_def x_def en)
    with e have "normalise s n e = Infinity s"
      by (simp add: normalise_def)
    moreover have "(2 ^ 53 - 1 / 2) * pow2 971 \<le> q"
    proof -
      have "(2 ^ 53 - 1 / 2) * pow2 971 \<le> pow2 53 * pow2 971"
        by (simp add: pow2_53 pow2_pos)
      also have "\<dots> = pow2 1024"
        using pow2_add [of 53 971] by simp
      also have "\<dots> \<le> pow2 (ilog2 q)"
        using greater by (intro pow2_mono) simp
      also have "\<dots> \<le> q"
        by (rule ilog2_bounds(1) [OF assms])
      finally show ?thesis .
    qed
    ultimately show ?thesis by (simp add: r)
  next
    case equal
    then have e: "e = 971" by (simp add: e_def)
    have n: "2 ^ 52 \<le> n" "n \<le> 2 ^ 53"
      using significand_normal [of q] assms equal
      by (simp_all add: n_def x_def e)
    have "(normalise s n e = Infinity s) = (n = 2 ^ 53)"
      using n by (simp add: normalise_def e)
    also have "\<dots> = (2 ^ 53 - 1 / 2 \<le> x)"
    proof
      assume "n = 2 ^ 53"
      then have "\<bar>rat_of_int (2 ^ 53) - x\<bar> \<le> \<bar>rat_of_int (2 ^ 53 - 1) - x\<bar>"
        using round_half_even_nearest [of x "2 ^ 53 - 1"] by (simp add: n_def)
      then show "2 ^ 53 - 1 / 2 \<le> x" by simp
    next
      assume x: "2 ^ 53 - 1 / 2 \<le> x"
      have "x < 2 ^ 53"
        using scaled_normal(2) [of q] assms equal by (simp add: x_def e pow2_53)
      with x have fl: "\<lfloor>x\<rfloor> = 2 ^ 53 - 1"
        by (simp add: floor_eq_iff)
      have "odd (2 ^ 53 - 1 :: int)" by simp
      with x fl show "n = 2 ^ 53"
        by (simp add: n_def round_half_even_def Let_def)
    qed
    also have "\<dots> = ((2 ^ 53 - 1 / 2) * pow2 971 \<le> q)"
      using pow2_pos [of 971] by (simp add: qx e)
    finally show ?thesis by (simp add: r)
  qed
qed

lemma isqrt_correct:
  "0 \<le> n \<Longrightarrow> 0 \<le> isqrt n \<and> isqrt n * isqrt n \<le> n \<and> n < (isqrt n + 1) * (isqrt n + 1)"
proof (induction n rule: isqrt.induct)
  case (1 n)
  show ?case
  proof (cases "n \<le> 0")
    case True
    with 1(2) show ?thesis by (simp add: isqrt.simps)
  next
    case False
    define s where "s = isqrt (n div 4)"
    from False 1(2) have "0 \<le> n div 4" by simp
    with 1(1) False have ih: "0 \<le> s" "s * s \<le> n div 4" "n div 4 < (s + 1) * (s + 1)"
      by (simp_all add: s_def)
    have d: "4 * (n div 4) \<le> n" "n < 4 * (n div 4) + 4"
      by simp_all
    have lo: "(2 * s) * (2 * s) \<le> n"
      using ih(2) d(1) by (simp add: algebra_simps)
    have hi: "n < (2 * s + 2) * (2 * s + 2)"
      using ih(3) d(2) by (simp add: algebra_simps)
    have r: "isqrt n = (if (2 * s + 1) * (2 * s + 1) \<le> n then 2 * s + 1 else 2 * s)"
      using False by (subst isqrt.simps) (simp add: s_def Let_def)
    show ?thesis
      using ih(1) lo hi by (auto simp: r algebra_simps)
  qed
qed

lemma isqrt_less: "0 \<le> n \<Longrightarrow> 0 \<le> b \<Longrightarrow> n < b * b \<Longrightarrow> isqrt n < b"
proof (rule ccontr)
  assume n: "0 \<le> n" and b: "0 \<le> b" and nb: "n < b * b" and "\<not> isqrt n < b"
  then have "b \<le> isqrt n" by simp
  with b have "b * b \<le> isqrt n * isqrt n" by (intro mult_mono) simp_all
  with isqrt_correct [OF n] nb show False by simp
qed

lemma isqrt_ge: "0 \<le> n \<Longrightarrow> 0 \<le> b \<Longrightarrow> b * b \<le> n \<Longrightarrow> b \<le> isqrt n"
proof (rule ccontr)
  assume n: "0 \<le> n" and b: "0 \<le> b" and nb: "b * b \<le> n" and "\<not> b \<le> isqrt n"
  then have "isqrt n + 1 \<le> b" by simp
  moreover from isqrt_correct [OF n] have "0 \<le> isqrt n + 1" by simp
  ultimately have "(isqrt n + 1) * (isqrt n + 1) \<le> b * b" by (intro mult_mono) simp_all
  with isqrt_correct [OF n] nb show False by simp
qed

text \<open>The square root is correctly rounded: the significand that \<open>sqrt_round\<close> passes to
  \<open>normalise\<close> is an integer nearest to \<open>\<surd>q / 2\<^sup>e\<close>.\<close>

lemma sqrt_round_nearest:
  assumes "0 < q"
  defines "e \<equiv> max (ilog2 q div 2 - 52) (- 1074)"
  shows "\<exists>n. sqrt_round q = normalise False n e \<and> 0 \<le> n
    \<and> \<bar>sqrt (real_of_rat (q / pow2 (2 * e))) - real_of_int n\<bar> \<le> 1 / 2"
proof -
  define x where "x = q / pow2 (2 * e)"
  define n0 where "n0 = isqrt \<lfloor>x\<rfloor>"
  define h where "h = rat_of_int n0 + 1 / 2"
  define n where "n = (if x < h * h then n0 else if h * h < x then n0 + 1
            else if even n0 then n0 else n0 + 1)"
  define y where "y = sqrt (real_of_rat x)"
  have x0: "0 < x" using assms(1) by (simp add: x_def pow2_pos)
  then have fx: "0 \<le> \<lfloor>x\<rfloor>" by simp
  from isqrt_correct [OF fx]
  have n0: "0 \<le> n0" and lo: "n0 * n0 \<le> \<lfloor>x\<rfloor>" and hi: "\<lfloor>x\<rfloor> < (n0 + 1) * (n0 + 1)"
    by (simp_all add: n0_def)
  have "rat_of_int (n0 * n0) \<le> x"
    using lo by (simp only: le_floor_iff [symmetric])
  then have lo': "rat_of_int n0 * rat_of_int n0 \<le> x" by simp
  have "x < rat_of_int ((n0 + 1) * (n0 + 1))"
    using hi by (simp only: floor_less_iff [symmetric])
  then have hi': "x < (rat_of_int n0 + 1) * (rat_of_int n0 + 1)" by simp
  have y0: "0 \<le> y" and yy: "y * y = real_of_rat x"
    using x0 by (simp_all add: y_def less_imp_le)
  have sq_le: "real_of_rat a \<le> y" if "0 \<le> a" "a * a \<le> x" for a
  proof -
    from that have "real_of_rat a * real_of_rat a \<le> y * y"
      unfolding yy by (simp only: of_rat_mult [symmetric] of_rat_less_eq)
    then have "(real_of_rat a)\<^sup>2 \<le> y\<^sup>2"
      by (simp only: power2_eq_square)
    then show ?thesis
      using y0 by (rule power2_le_imp_le)
  qed
  have sq_ge: "y \<le> real_of_rat a" if "0 \<le> a" "x \<le> a * a" for a
  proof -
    from that have "y * y \<le> real_of_rat a * real_of_rat a"
      unfolding yy by (simp only: of_rat_mult [symmetric] of_rat_less_eq)
    then have "y\<^sup>2 \<le> (real_of_rat a)\<^sup>2"
      by (simp only: power2_eq_square)
    moreover from that(1) have "0 \<le> real_of_rat a" by simp
    ultimately show ?thesis
      by (rule power2_le_imp_le)
  qed
  have h0: "0 \<le> h" using n0 by (simp add: h_def)
  have a: "real_of_int n0 \<le> y"
    using sq_le [of "rat_of_int n0"] n0 lo' by simp
  have b: "y \<le> real_of_int n0 + 1"
    using sq_ge [of "rat_of_int n0 + 1"] n0 hi' by (simp add: of_rat_add)
  have hr: "real_of_rat h = real_of_int n0 + 1 / 2"
    by (simp add: h_def of_rat_add of_rat_divide)
  have c: "\<bar>y - real_of_int n\<bar> \<le> 1 / 2"
  proof (cases "x < h * h")
    case True
    then have "y \<le> real_of_rat h" using sq_ge [of h] h0 by simp
    with a True show ?thesis by (simp add: n_def hr)
  next
    case False
    then have "real_of_rat h \<le> y" using sq_le [of h] h0 by simp
    with b False show ?thesis
      using sq_ge [of h] h0 by (auto simp: n_def hr)
  qed
  have "sqrt_round q = normalise False n e"
    by (simp add: sqrt_round_def e_def x_def n0_def h_def n_def Let_def)
  moreover have "0 \<le> n" using n0 by (simp add: n_def)
  ultimately show ?thesis
    using c unfolding y_def x_def by blast
qed

lemma pow2_104: "pow2 104 = 2 ^ 104" and pow2_106: "pow2 106 = 2 ^ 106"
  by (simp_all add: pow2_def)

lemma valid_sqrt_round:
  assumes "0 < q"
  shows "valid_double (sqrt_round q)"
proof -
  define k where "k = ilog2 q div 2"
  define e where "e = max (k - 52) (- 1074)"
  define x where "x = q / pow2 (2 * e)"
  define n0 where "n0 = isqrt \<lfloor>x\<rfloor>"
  define h where "h = rat_of_int n0 + 1 / 2"
  define n where "n = (if x < h * h then n0 else if h * h < x then n0 + 1
            else if even n0 then n0 else n0 + 1)"
  have r: "sqrt_round q = normalise False n e"
    by (simp add: sqrt_round_def k_def e_def x_def n0_def h_def n_def Let_def)
  have x0: "0 < x" using assms by (simp add: x_def pow2_pos)
  then have fx: "0 \<le> \<lfloor>x\<rfloor>" by simp
  have n0: "0 \<le> n0" using isqrt_correct [OF fx] by (simp add: n0_def)
  have nn: "n0 \<le> n" "n \<le> n0 + 1" by (simp_all add: n_def)
  have k: "2 * k \<le> ilog2 q" "ilog2 q \<le> 2 * k + 1" by (simp_all add: k_def)
  show ?thesis
  proof (cases "- 1074 \<le> k - 52")
    case True
    then have e: "e = k - 52" by (simp add: e_def)
    have "pow2 104 \<le> pow2 (ilog2 q - 2 * e)"
      using k by (intro pow2_mono) (simp add: e)
    also have "\<dots> = pow2 (ilog2 q) / pow2 (2 * e)"
      by (simp only: pow2_diff)
    also have "\<dots> \<le> x"
      unfolding x_def using ilog2_bounds(1) [OF assms]
      by (simp add: divide_right_mono pow2_pos less_imp_le)
    finally have "rat_of_int (2 ^ 104) \<le> x" by (simp add: pow2_104)
    then have "(2 ^ 52) * (2 ^ 52) \<le> \<lfloor>x\<rfloor>" by (simp add: le_floor_iff)
    then have lo: "2 ^ 52 \<le> n0"
      unfolding n0_def using fx by (intro isqrt_ge) simp_all
    have "x < pow2 (ilog2 q + 1) / pow2 (2 * e)"
      unfolding x_def using ilog2_bounds(2) [OF assms]
      by (simp add: divide_strict_right_mono pow2_pos)
    also have "\<dots> = pow2 (ilog2 q + 1 - 2 * e)"
      by (simp only: pow2_diff)
    also have "\<dots> \<le> pow2 106"
      using k by (intro pow2_mono) (simp add: e)
    finally have "x < rat_of_int (2 ^ 106)" by (simp add: pow2_106)
    then have "\<lfloor>x\<rfloor> < (2 ^ 53) * (2 ^ 53)" by (simp add: floor_less_iff)
    then have "n0 < 2 ^ 53"
      unfolding n0_def using fx by (intro isqrt_less) simp_all
    with lo nn True show ?thesis
      unfolding r by (intro valid_normalise_normal) (simp_all add: e)
  next
    case False
    then have e: "e = - 1074" by (simp add: e_def)
    have "x < pow2 (ilog2 q + 1) / pow2 (2 * e)"
      unfolding x_def using ilog2_bounds(2) [OF assms]
      by (simp add: divide_strict_right_mono pow2_pos)
    also have "\<dots> = pow2 (ilog2 q + 1 - 2 * e)"
      by (simp only: pow2_diff)
    also have "\<dots> \<le> pow2 104"
      using k False by (intro pow2_mono) (simp add: e)
    finally have "x < rat_of_int (2 ^ 104)" by (simp add: pow2_104)
    then have "\<lfloor>x\<rfloor> < (2 ^ 52) * (2 ^ 52)" by (simp add: floor_less_iff)
    then have "n0 < 2 ^ 52"
      unfolding n0_def using fx by (intro isqrt_less) simp_all
    with n0 nn show ?thesis
      unfolding r e by (intro valid_normalise_subnormal) simp_all
  qed
qed

text \<open>Every operation returns a canonical double.\<close>

lemma valid_D: "valid_double (D q)"
  by (simp add: D_def valid_round_double)

lemma valid_fneg: "valid_double x \<Longrightarrow> valid_double (fneg x)"
  by (cases x) simp_all

lemma valid_fabs: "valid_double x \<Longrightarrow> valid_double (fabs x)"
  by (cases x) simp_all

lemma valid_fadd: "valid_double (fadd x y)"
  by (cases x; cases y) (simp_all add: Let_def valid_round_double)

lemma valid_fsub: "valid_double (fsub x y)"
  by (simp add: fsub_def valid_fadd)

lemma valid_fmul: "valid_double (fmul x y)"
  by (cases x; cases y) (simp_all add: valid_round_double mag_Finite_nonneg pow2_pos less_imp_le)

lemma valid_fdiv: "valid_double (fdiv x y)"
  by (cases x; cases y) (simp_all add: valid_round_double pow2_pos less_imp_le)

lemma mag_pos: "m \<noteq> 0 \<Longrightarrow> 0 < mag (Finite s m e)"
  using pow2_pos [of e] by simp

lemma valid_fsqrt: "valid_double x \<Longrightarrow> valid_double (fsqrt x)"
proof (cases x)
  case (Finite s m e)
  assume v: "valid_double x"
  show ?thesis
  proof (cases "m = 0")
    case True
    with v Finite show ?thesis by simp
  next
    case False
    then have "valid_double (sqrt_round (mag (Finite t m e)))" for t
      by (intro valid_sqrt_round mag_pos)
    with False Finite show ?thesis by (simp del: mag.simps)
  qed
qed simp_all

text \<open>The model agrees with the hardware on the usual landmarks: \<open>0.1\<close>, \<open>0.1 + 0.2\<close> (which
  is not \<open>0.3\<close>), \<open>1 / 3\<close>, \<open>\<surd>2\<close>, the signed zeros and division by zero.\<close>

lemma double_landmarks:
  "D (1 / 10) = Finite False 7205759403792794 (- 56)"
  "fadd (D (1 / 10)) (D (2 / 10)) = Finite False 5404319552844596 (- 54)"
  "D (3 / 10) = Finite False 5404319552844595 (- 54)"
  "fdiv (D 1) (D 3) = Finite False 6004799503160661 (- 54)"
  "fsqrt (D 2) = Finite False 6369051672525773 (- 52)"
  "fsub (D 1) (D 1) = Finite False 0 0"
  "fadd (fneg (D 0)) (fneg (D 0)) = Finite True 0 0"
  "fdiv (D 1) (D 0) = Infinity False"
  "fdiv (D (- 1)) (D 0) = Infinity True"
  "fdiv (D 0) (D 0) = NaN"
  by code_simp+

text \<open>The sum of squares that the division takes as its denominator is zero when both
  numbers are zeros, and also for numbers so small that their squares underflow.\<close>

lemma zero_denominator:
  "is_zero x \<Longrightarrow> is_zero y \<Longrightarrow> fadd (fmul x x) (fmul y y) = Finite False 0 0"
  by (cases x; cases y) (simp_all add: round_double_def)

lemma feq_refl: "feq x x = (\<not> is_nan x)"
  by (cases x) simp_all

lemma valof_neg_iff: "(valof (Finite True m e) < 0) = (m \<noteq> 0)"
  using pow2_pos [of e] by (simp add: zero_less_mult_iff)

lemma flt_zero_iff: "flt x (D 0) = (x = Infinity True \<or> (\<exists>m e. x = Finite True m e \<and> m \<noteq> 0))"
proof (cases x)
  case (Finite s m e)
  then show ?thesis
    using mag_Finite_nonneg [of m e] pow2_pos [of e]
    by (cases s) (auto simp: D_0 zero_less_mult_iff not_less)
qed (simp_all add: D_0)

lemma printed_is_fabs:
  "((if flt x (D 0) then fneg x else x) = fabs x) = (\<not> neg_zero x)"
  by (cases x) (auto simp: flt_zero_iff)

section \<open>The arithmetic operators: \<^verbatim>\<open>operator*\<close>, \<^verbatim>\<open>operator/\<close>\<close>

lemma binary_ill_formed:
  "binary f (Inl e) y = Inl e"
  "binary f (Inr a) (Inl e) = Inl e"
  by (simp_all add: binary_def)

lemma construct_ill_formed: "construct (Inl e) y = Inl e"
  by (simp add: construct_def)

lemma operator_add_ill_formed: "operator_add a b = Inl Ill_formed"
  by (simp add: operator_add_def real_uncalled_def binary_ill_formed construct_ill_formed)

lemma operator_sub_ill_formed: "operator_sub a b = Inl Ill_formed"
  by (simp add: operator_sub_def real_uncalled_def binary_ill_formed construct_ill_formed)

text \<open>
  C1 on the code. \<^verbatim>\<open>operator/\<close> uses \<^verbatim>\<open>other.real_\<close> as a number in its first statement
  (line 115). The function is ill-formed, so it never signals \<open>DivisionByZero\<close>: not for
  any pair of values, and not for the scenario \<open>(1 + 1i) / (0 + 0i)\<close> of the specification.
\<close>

theorem C1_no_division_by_zero_signalled:
  "operator_div a b \<noteq> Inl DivisionByZero
   \<and> operator_div (Complex_xy (D 1) (D 1)) (Complex_xy (D 0) (D 0)) = Inl Ill_formed"
  by (simp add: operator_div_def real_uncalled_def binary_ill_formed)

text \<open>
  C2 on the code. For the same reason \<^verbatim>\<open>operator/\<close> returns no quotient, whatever the
  denominator: not for any pair of values, and not for \<open>(1 + 0i) / (0 + 1i)\<close>.
\<close>

theorem C2_no_quotient_returned:
  "operator_div a b \<noteq> Inr c
   \<and> operator_div (Complex_xy (D 1) (D 0)) (Complex_xy (D 0) (D 1)) = Inl Ill_formed"
  by (simp add: operator_div_def real_uncalled_def binary_ill_formed)

text \<open>
  C3 on the code. \<^verbatim>\<open>operator*\<close> uses \<^verbatim>\<open>other.real_\<close> as a number in both components
  (lines 96 and 97). It is ill-formed and returns no product: not for any pair of values,
  and in particular not \<open>(-5 + 10i)\<close> for \<open>(1 + 2i) * (3 + 4i)\<close>.
\<close>

theorem C3_no_product_returned:
  "operator_mul a b = Inl Ill_formed
   \<and> operator_mul (Complex_xy (D 1) (D 2)) (Complex_xy (D 3) (D 4))
       \<noteq> Inr (Complex_xy (D (- 5)) (D 10))"
  by (simp add: operator_mul_def real_uncalled_def binary_ill_formed construct_ill_formed)

section \<open>Construction from polar form: \<^verbatim>\<open>Complex::Complex\<close>\<close>

text \<open>
  C4. With \<^verbatim>\<open>is_polar = true\<close> the constructor stores \<open>x * cos(y)\<close> and \<open>x * sin(y)\<close>, for
  every magnitude \<open>x\<close> and angle \<open>y\<close>, whatever the math library returns. No magnitude is
  rejected (the constructor cannot fail) and none is normalised: negating the magnitude
  negates both components, and with a library that is exact at 0 the magnitude \<open>-2\<close> at
  angle \<open>0\<close> gives \<open>(-2, -0.0)\<close>.
\<close>

theorem C4_polar_construction:
  "Complex_ctor lm m \<theta> True =
     \<lparr>real_m = fmul m (std_cos lm \<theta>), imaginary = fmul m (std_sin lm \<theta>)\<rparr>
   \<and> Complex_ctor lm (fneg m) \<theta> True =
     \<lparr>real_m = fneg (fmul m (std_cos lm \<theta>)), imaginary = fneg (fmul m (std_sin lm \<theta>))\<rparr>
   \<and> (std_cos lm (D 0) = D 1 \<and> std_sin lm (D 0) = D 0 \<longrightarrow>
        Complex_ctor lm (D (- 2)) (D 0) True = \<lparr>real_m = D (- 2), imaginary = fneg (D 0)\<rparr>)"
proof (intro conjI impI)
  assume "std_cos lm (D 0) = D 1 \<and> std_sin lm (D 0) = D 0"
  moreover have "fmul (D (- 2)) (D 1) = D (- 2)" and "fmul (D (- 2)) (D 0) = fneg (D 0)"
    by code_simp+
  ultimately show "Complex_ctor lm (D (- 2)) (D 0) True = \<lparr>real_m = D (- 2), imaginary = fneg (D 0)\<rparr>"
    by (simp add: Complex_ctor_def)
qed (simp_all add: Complex_ctor_def fmul_fneg)

text \<open>The hypothesis on the library holds for the stand-in library.\<close>

theorem C4_witness:
  "std_cos libm_at_0 (D 0) = D 1 \<and> std_sin libm_at_0 (D 0) = D 0
   \<and> Complex_ctor libm_at_0 (D (- 2)) (D 0) True = \<lparr>real_m = D (- 2), imaginary = fneg (D 0)\<rparr>"
proof -
  have h: "std_cos libm_at_0 (D 0) = D 1 \<and> std_sin libm_at_0 (D 0) = D 0"
    by (simp add: libm_at_0_def)
  have "Complex_ctor libm_at_0 (D (- 2)) (D 0) True = \<lparr>real_m = D (- 2), imaginary = fneg (D 0)\<rparr>"
    by (rule C4_polar_construction [THEN conjunct2, THEN conjunct2, rule_format, OF h])
  with h show ?thesis by blast
qed

section \<open>Modulus: \<^verbatim>\<open>Complex::abs\<close>\<close>

text \<open>
  C5. \<open>abs\<close> is the rounded square root of the rounded sum of the rounded squares. Its
  result never compares less than zero. It cannot fail, and when no component is a NaN
  the result is a number (or \<open>+\<infinity>\<close>, on overflow) that compares greater than or equal to
  zero. For \<open>(3, 4)\<close> it is exactly \<open>5.0\<close>.
\<close>

theorem C5_magnitude:
  "abs_c a = fsqrt (fadd (fmul (real_m a) (real_m a)) (fmul (imaginary a) (imaginary a)))
   \<and> \<not> flt (abs_c a) (D 0)
   \<and> (\<not> is_nan (real_m a) \<and> \<not> is_nan (imaginary a) \<longrightarrow>
        \<not> is_nan (abs_c a) \<and> fle (D 0) (abs_c a))
   \<and> abs_c (Complex_xy (D 3) (D 4)) = D 5"
proof -
  let ?s = "fadd (fmul (real_m a) (real_m a)) (fmul (imaginary a) (imaginary a))"
  have s: "sign_clear ?s"
    by (intro sign_clear_fadd sign_clear_square)
  then have "sign_clear (abs_c a)"
    unfolding abs_c_def by (rule sign_clear_fsqrt)
  then have 1: "\<not> flt (abs_c a) (D 0)"
    by (rule sign_clear_not_less)
  have 2: "\<not> is_nan (abs_c a) \<and> fle (D 0) (abs_c a)"
    if "\<not> is_nan (real_m a) \<and> \<not> is_nan (imaginary a)"
  proof -
    from that have "\<not> is_nan ?s"
      by (intro not_nan_fadd sign_clear_square not_nan_square) simp_all
    with s have "\<not> is_nan (abs_c a)"
      unfolding abs_c_def by (intro not_nan_fsqrt)
    with \<open>sign_clear (abs_c a)\<close> show ?thesis
      by (simp add: sign_clear_fle)
  qed
  have 3: "abs_c (Complex_xy (D 3) (D 4)) = D 5"
    by code_simp
  from 1 2 3 show ?thesis
    by (simp add: abs_c_def)
qed

theorem C5_witness:
  "\<not> is_nan (real_m (Complex_xy (D 3) (D 4))) \<and> \<not> is_nan (imaginary (Complex_xy (D 3) (D 4)))
   \<and> \<not> is_nan (abs_c (Complex_xy (D 3) (D 4))) \<and> fle (D 0) (abs_c (Complex_xy (D 3) (D 4)))"
proof -
  let ?c = "Complex_xy (D 3) (D 4)"
  have h: "\<not> is_nan (real_m ?c) \<and> \<not> is_nan (imaginary ?c)"
    by (simp add: Complex_xy_def D_def not_nan_round)
  have "\<not> is_nan (abs_c ?c) \<and> fle (D 0) (abs_c ?c)"
    by (rule C5_magnitude [THEN conjunct2, THEN conjunct2, THEN conjunct1, rule_format, OF h])
  with h show ?thesis by blast
qed

section \<open>Argument: \<^verbatim>\<open>Complex::arg\<close>\<close>

subsection \<open>Bounds on \<open>\<pi>\<close>\<close>

text \<open>The partial sums of the arctangent series enclose the arctangent; with Machin's
  formula they enclose \<open>\<pi>\<close> between the double \<open>7074237752028440 \<sqdot> 2\<^sup>-\<^sup>5\<^sup>1\<close> and the point half
  way to the next double.\<close>

lemma arctan_partial_sums:
  fixes x :: real
  assumes "0 \<le> x" and "x \<le> 1"
  shows "(\<Sum>i<2 * n. (- 1) ^ i * (1 / real (i * 2 + 1) * x ^ (i * 2 + 1))) \<le> arctan x"
    and "arctan x \<le> (\<Sum>i<2 * n + 1. (- 1) ^ i * (1 / real (i * 2 + 1) * x ^ (i * 2 + 1)))"
proof -
  let ?a = "\<lambda>i. 1 / real (i * 2 + 1) * x ^ (i * 2 + 1)"
  from assms have ax: "\<bar>x\<bar> \<le> 1" by simp
  have z: "?a \<longlonglongrightarrow> 0" using ax by (rule zeroseq_arctan_series)
  have p: "0 \<le> ?a i" for i using assms by simp
  have m: "?a (Suc i) \<le> ?a i" for i
  proof -
    have "x ^ (Suc i * 2 + 1) \<le> x ^ (i * 2 + 1)"
      using assms by (intro power_decreasing) simp_all
    moreover have "1 / real (Suc i * 2 + 1) \<le> 1 / real (i * 2 + 1)"
      by (intro divide_left_mono) simp_all
    moreover have "0 \<le> x ^ (Suc i * 2 + 1)" using assms by simp
    ultimately show ?thesis
      by (intro mult_mono) simp_all
  qed
  have s: "arctan x = (\<Sum>i. (- 1) ^ i * ?a i)"
    using ax by (rule arctan_series)
  show "(\<Sum>i<2 * n. (- 1) ^ i * ?a i) \<le> arctan x"
    unfolding s by (rule summable_Leibniz'(2) [OF z p m])
  show "arctan x \<le> (\<Sum>i<2 * n + 1. (- 1) ^ i * ?a i)"
    unfolding s by (rule summable_Leibniz'(4) [OF z p m])
qed

lemma pi_upper: "pi < 14148475504056881 / 4503599627370496"
proof -
  have "arctan (1 / 5) \<le> (\<Sum>i<2 * 6 + 1. (- 1) ^ i * (1 / real (i * 2 + 1) * (1 / 5) ^ (i * 2 + 1)))"
    by (rule arctan_partial_sums) simp_all
  moreover have "(\<Sum>i<2 * 2. (- 1) ^ i * (1 / real (i * 2 + 1) * (1 / 239) ^ (i * 2 + 1))) \<le> arctan (1 / 239)"
    by (rule arctan_partial_sums) simp_all
  ultimately have "pi \<le> 16 * (\<Sum>i<2 * 6 + 1. (- 1) ^ i * (1 / real (i * 2 + 1) * (1 / 5) ^ (i * 2 + 1)))
      - 4 * (\<Sum>i<2 * 2. (- 1) ^ i * (1 / real (i * 2 + 1) * (1 / 239) ^ (i * 2 + 1)))"
    using machin by simp
  also have "\<dots> < 14148475504056881 / 4503599627370496"
    by (simp add: lessThan_nat_numeral lessThan_Suc power_one_over)
  finally show ?thesis .
qed

lemma pi_lower: "7074237752028440 / 2251799813685248 < pi"
proof -
  have "(\<Sum>i<2 * 6. (- 1) ^ i * (1 / real (i * 2 + 1) * (1 / 5) ^ (i * 2 + 1))) \<le> arctan (1 / 5)"
    by (rule arctan_partial_sums) simp_all
  moreover have "arctan (1 / 239) \<le> (\<Sum>i<2 * 2 + 1. (- 1) ^ i * (1 / real (i * 2 + 1) * (1 / 239) ^ (i * 2 + 1)))"
    by (rule arctan_partial_sums) simp_all
  ultimately have "16 * (\<Sum>i<2 * 6. (- 1) ^ i * (1 / real (i * 2 + 1) * (1 / 5) ^ (i * 2 + 1)))
      - 4 * (\<Sum>i<2 * 2 + 1. (- 1) ^ i * (1 / real (i * 2 + 1) * (1 / 239) ^ (i * 2 + 1))) \<le> pi"
    using machin by simp
  moreover have "7074237752028440 / 2251799813685248 <
      16 * (\<Sum>i<2 * 6. (- 1) ^ i * (1 / real (i * 2 + 1) * (1 / 5) ^ (i * 2 + 1)))
      - 4 * (\<Sum>i<2 * 2 + 1. (- 1) ^ i * (1 / real (i * 2 + 1) * (1 / 239) ^ (i * 2 + 1)))"
    by (simp add: lessThan_nat_numeral lessThan_Suc power_one_over)
  ultimately show ?thesis by simp
qed

lemma two_less_pi: "2 < pi"
  using pi_lower by simp

lemma pi_less_half_way: "pi * 2 ^ 51 < real_of_int 7074237752028440 + 1 / 2"
  using pi_upper by simp

lemma pi_above_double: "real_of_int 7074237752028440 / 2 ^ 51 < pi"
  using pi_lower by simp

subsection \<open>Rounding of a real number\<close>

lemma real_pow2: "real_of_rat (pow2 e) = 2 powr real_of_int e"
proof (cases "0 \<le> e")
  case True
  then have "real_of_rat (pow2 e) = 2 ^ nat e"
    by (simp add: pow2_def of_rat_power)
  also have "\<dots> = 2 powr real (nat e)"
    by (simp add: powr_realpow)
  finally show ?thesis using True by simp
next
  case False
  then have "real_of_rat (pow2 e) = 1 / 2 ^ nat (- e)"
    by (simp add: pow2_def of_rat_divide of_rat_power)
  also have "\<dots> = 1 / 2 powr real (nat (- e))"
    by (simp add: powr_realpow)
  also have "\<dots> = 2 powr - real (nat (- e))"
    by (simp add: powr_minus_divide)
  finally show ?thesis using False by simp
qed

lemma real_pow2_pos: "0 < real_of_rat (pow2 e)"
  by (simp add: pow2_pos)

lemma floor_log2_bounds:
  assumes "0 < r"
  shows "real_of_rat (pow2 \<lfloor>log 2 r\<rfloor>) \<le> r" and "r < real_of_rat (pow2 (\<lfloor>log 2 r\<rfloor> + 1))"
proof -
  have "2 powr real_of_int \<lfloor>log 2 r\<rfloor> \<le> 2 powr log 2 r"
    by (intro powr_mono) simp_all
  with assms show "real_of_rat (pow2 \<lfloor>log 2 r\<rfloor>) \<le> r"
    by (simp add: real_pow2)
  have "2 powr log 2 r < 2 powr real_of_int (\<lfloor>log 2 r\<rfloor> + 1)"
    by (intro powr_less_mono) simp_all
  with assms show "r < real_of_rat (pow2 (\<lfloor>log 2 r\<rfloor> + 1))"
    by (simp add: real_pow2)
qed

lemma round_half_even_real_bounds:
  "\<lfloor>x\<rfloor> \<le> round_half_even_real x" "round_half_even_real x \<le> \<lfloor>x\<rfloor> + 1"
  by (simp_all add: round_half_even_real_def Let_def)

lemma round_half_even_real_ge: "real_of_int a \<le> x \<Longrightarrow> a \<le> round_half_even_real x"
proof -
  assume "real_of_int a \<le> x"
  then have "a \<le> \<lfloor>x\<rfloor>" by (simp add: le_floor_iff)
  with round_half_even_real_bounds(1) [of x] show ?thesis by simp
qed

lemma round_half_even_real_le: "x \<le> real_of_int b \<Longrightarrow> round_half_even_real x \<le> b"
proof -
  assume b: "x \<le> real_of_int b"
  show ?thesis
  proof (cases "x = real_of_int \<lfloor>x\<rfloor>")
    case True
    then have "x - real_of_int \<lfloor>x\<rfloor> = 0" by simp
    then have "round_half_even_real x = \<lfloor>x\<rfloor>"
      by (simp add: round_half_even_real_def Let_def)
    moreover from b have "\<lfloor>x\<rfloor> \<le> b" by (simp add: floor_le_iff)
    ultimately show ?thesis by simp
  next
    case False
    have "real_of_int \<lfloor>x\<rfloor> \<le> x" by simp
    with False b have "real_of_int \<lfloor>x\<rfloor> < real_of_int b" by linarith
    then have "\<lfloor>x\<rfloor> < b" by (simp only: of_int_less_iff)
    with round_half_even_real_bounds(2) [of x] show ?thesis by simp
  qed
qed

text \<open>Below a half-way point the rounding does not go up.\<close>

lemma round_half_even_real_below_half:
  assumes "x < real_of_int b + 1 / 2"
  shows "round_half_even_real x \<le> b"
proof (cases "\<lfloor>x\<rfloor> < b")
  case True
  with round_half_even_real_bounds(2) [of x] show ?thesis by simp
next
  case False
  have "real_of_int \<lfloor>x\<rfloor> \<le> x" by simp
  with assms have "real_of_int \<lfloor>x\<rfloor> < real_of_int b + 1" by linarith
  then have "\<lfloor>x\<rfloor> < b + 1"
    by (metis of_int_1 of_int_add of_int_less_iff)
  with False have f: "\<lfloor>x\<rfloor> = b" by simp
  with assms have "x - real_of_int \<lfloor>x\<rfloor> < 1 / 2" by simp
  then show ?thesis
    by (simp add: round_half_even_real_def Let_def f)
qed

lemma floor_real_of_rat: "\<lfloor>real_of_rat q\<rfloor> = \<lfloor>q\<rfloor>"
proof (rule floor_unique)
  have "real_of_rat (rat_of_int \<lfloor>q\<rfloor>) \<le> real_of_rat q"
    by (simp only: of_rat_less_eq of_int_floor_le)
  then show "real_of_int \<lfloor>q\<rfloor> \<le> real_of_rat q" by simp
  have "q < rat_of_int \<lfloor>q\<rfloor> + 1" by linarith
  then have "real_of_rat q < real_of_rat (rat_of_int \<lfloor>q\<rfloor> + 1)"
    by (simp only: of_rat_less)
  then show "real_of_rat q < real_of_int \<lfloor>q\<rfloor> + 1"
    by (simp add: of_rat_add)
qed

lemma round_half_even_real_of_rat: "round_half_even_real (real_of_rat q) = round_half_even q"
proof -
  have d: "real_of_rat q - real_of_int \<lfloor>q\<rfloor> = real_of_rat (q - rat_of_int \<lfloor>q\<rfloor>)"
    by (simp add: of_rat_diff)
  have h: "(1 / 2 :: real) = real_of_rat (1 / 2)"
    by (simp add: of_rat_divide)
  show ?thesis
    unfolding round_half_even_real_def round_half_even_def floor_real_of_rat Let_def d h
      of_rat_less
    by (rule refl)
qed

text \<open>On a rational, \<open>round_real\<close> is the rounding of the arithmetic.\<close>

lemma round_real_of_rat:
  assumes "0 \<le> q"
  shows "round_real s (real_of_rat q) = round_double s q"
proof (cases "q = 0")
  case True
  then show ?thesis by (simp add: round_real_def round_double_def)
next
  case False
  with assms have q: "0 < q" by simp
  then have r: "0 < real_of_rat q" by simp
  define k where "k = \<lfloor>log 2 (real_of_rat q)\<rfloor>"
  from floor_log2_bounds [OF r]
  have "real_of_rat (pow2 k) \<le> real_of_rat q" and "real_of_rat q < real_of_rat (pow2 (k + 1))"
    by (simp_all only: k_def)
  then have "pow2 k \<le> q" and "q < pow2 (k + 1)"
    by (simp_all only: of_rat_less_eq of_rat_less)
  with q have k: "ilog2 q = k" by (rule ilog2_unique)
  have "real_of_rat q / real_of_rat (pow2 e) = real_of_rat (q / pow2 e)" for e
    by (simp add: of_rat_divide)
  then show ?thesis
    using False
    by (simp add: round_real_def round_double_def k k_def [symmetric] round_half_even_real_of_rat)
qed

subsection \<open>Rounding of an angle\<close>

text \<open>An angle in \<open>[2, \<pi>]\<close> rounds in the binade of \<open>\<pi>\<close>, to at most the double below \<open>\<pi>\<close>.\<close>

lemma round_real_normal_binade:
  assumes "2 \<le> r" and "r \<le> pi"
  shows "\<exists>m. round_real s r = Finite s m (- 51) \<and> 2 ^ 52 \<le> m \<and> m \<le> 7074237752028440"
proof -
  from assms have r0: "0 < r" by simp
  have a: "1 \<le> log 2 r"
    using assms(1) r0 by (simp add: le_log_iff)
  have "r < 2 powr 2" using assms pi_less_4 by simp
  then have b: "log 2 r < 2" using r0 by (simp add: log_less_iff)
  have L: "\<lfloor>log 2 r\<rfloor> = 1"
    using a b by (intro floor_unique) simp_all
  define x where "x = r / real_of_rat (pow2 (- 51))"
  have p: "real_of_rat (pow2 (- 51)) = 1 / 2 ^ 51"
    by (simp add: pow2_def of_rat_divide of_rat_power)
  have x: "x = r * 2 ^ 51" by (simp add: x_def p)
  define n where "n = round_half_even_real x"
  have r: "round_real s r = normalise s n (- 51)"
    using r0 by (simp add: round_real_def L n_def x_def)
  have "x < real_of_int 7074237752028440 + 1 / 2"
    using assms(2) pi_less_half_way unfolding x by simp
  then have up: "n \<le> 7074237752028440"
    unfolding n_def by (rule round_half_even_real_below_half)
  have "real_of_int (2 ^ 52) \<le> x"
    using assms(1) unfolding x by simp
  then have lo: "2 ^ 52 \<le> n"
    unfolding n_def by (rule round_half_even_real_ge)
  from lo up have "normalise s n (- 51) = Finite s n (- 51)"
    by (simp add: normalise_def)
  with r lo up show ?thesis by simp
qed

lemma round_real_small:
  assumes "0 < r" and "r < 2"
  shows "\<exists>m e. round_real s r = Finite s m e \<and> 0 \<le> m \<and> rat_of_int m * pow2 e \<le> 2"
proof -
  define L where "L = \<lfloor>log 2 r\<rfloor>"
  define e where "e = max (L - 52) (- 1074)"
  define x where "x = r / real_of_rat (pow2 e)"
  define n where "n = round_half_even_real x"
  have r: "round_real s r = normalise s n e"
    using assms(1) by (simp add: round_real_def L_def e_def x_def n_def Let_def)
  have "log 2 r < 1" using assms by (simp add: log_less_iff)
  then have L: "L \<le> 0" by (simp add: L_def floor_less_iff [symmetric] del: floor_less_iff)
  then have e: "e \<le> - 52" "L - 52 \<le> e" by (simp_all add: e_def)
  have "real_of_int 0 \<le> x"
    using assms(1) real_pow2_pos [of e] by (simp add: x_def)
  then have n0: "0 \<le> n" unfolding n_def by (rule round_half_even_real_ge)
  have s: "L + 1 = 53 + (L - 52)" by simp
  have "r < real_of_rat (pow2 (L + 1))"
    unfolding L_def by (rule floor_log2_bounds(2) [OF assms(1)])
  also have "pow2 (L + 1) = pow2 53 * pow2 (L - 52)"
    by (simp only: s pow2_add)
  also have "\<dots> \<le> pow2 53 * pow2 e"
    using e(2) pow2_mono [of "L - 52" e] pow2_pos [of 53] by simp
  finally have "r < real_of_rat (pow2 53) * real_of_rat (pow2 e)"
    by (simp add: of_rat_mult of_rat_less_eq)
  then have "x < real_of_rat (pow2 53)"
    using real_pow2_pos [of e] by (simp add: x_def pos_divide_less_eq)
  then have "x \<le> real_of_int (2 ^ 53)"
    by (simp add: pow2_53 of_rat_power)
  then have n1: "n \<le> 2 ^ 53" unfolding n_def by (rule round_half_even_real_le)
  have p1: "pow2 (e + 1) \<le> pow2 (- 51)" and p0: "pow2 e \<le> pow2 (- 52)"
    using e(1) by (simp_all add: pow2_mono)
  have v51: "pow2 (- 51) = 1 / 2 ^ 51" and v52: "pow2 (- 52) = 1 / 2 ^ 52"
    by (simp_all add: pow2_def)
  show ?thesis
  proof (cases "n = 0")
    case True
    then have "round_real s r = Finite s 0 0" by (simp add: r normalise_def)
    then show ?thesis by simp
  next
    case n: False
    show ?thesis
    proof (cases "n = 2 ^ 53")
      case True
      with e have "round_real s r = Finite s (2 ^ 52) (e + 1)"
        by (simp add: r normalise_def)
      moreover have "rat_of_int (2 ^ 52) * pow2 (e + 1) \<le> rat_of_int (2 ^ 52) * pow2 (- 51)"
        using p1 by (intro mult_left_mono) simp_all
      then have "rat_of_int (2 ^ 52) * pow2 (e + 1) \<le> 2"
        by (simp add: v51)
      ultimately show ?thesis by force
    next
      case False
      with n e have "round_real s r = Finite s n e"
        by (simp add: r normalise_def)
      moreover have "rat_of_int n * pow2 e \<le> rat_of_int (2 ^ 53) * pow2 (- 52)"
        using n0 n1 p0 pow2_pos [of e] by (intro mult_mono) (simp_all add: less_imp_le)
      then have "rat_of_int n * pow2 e \<le> 2"
        by (simp add: v52)
      ultimately show ?thesis using n0 by blast
    qed
  qed
qed

text \<open>An angle between \<open>0\<close> and \<open>\<pi>\<close> rounds to a finite double below \<open>\<pi>\<close>: the double
  nearest to \<open>\<pi>\<close> is less than \<open>\<pi>\<close>.\<close>

lemma round_real_below_pi:
  assumes "0 \<le> r" and "r \<le> pi"
  shows "\<exists>m e. round_real s r = Finite s m e \<and> 0 \<le> m
    \<and> real_of_rat (rat_of_int m * pow2 e) < pi"
proof -
  consider "r = 0" | "0 < r" "r < 2" | "2 \<le> r"
    using assms(1) by linarith
  then show ?thesis
  proof cases
    case 1
    then have "round_real s r = Finite s 0 0" by (simp add: round_real_def)
    then show ?thesis by simp
  next
    case 2
    then obtain m e where m: "round_real s r = Finite s m e" "0 \<le> m"
      and "rat_of_int m * pow2 e \<le> 2"
      using round_real_small by blast
    then have "real_of_rat (rat_of_int m * pow2 e) \<le> real_of_rat 2"
      by (simp only: of_rat_less_eq)
    with two_less_pi have "real_of_rat (rat_of_int m * pow2 e) < pi" by simp
    with m show ?thesis by blast
  next
    case 3
    with assms(2) obtain m where m: "round_real s r = Finite s m (- 51)" "2 ^ 52 \<le> m"
      and le: "m \<le> 7074237752028440"
      using round_real_normal_binade by blast
    have "real_of_rat (rat_of_int m * pow2 (- 51)) = real_of_int m / 2 ^ 51"
      by (simp add: pow2_def of_rat_mult of_rat_divide of_rat_power)
    also from le have "\<dots> \<le> real_of_int 7074237752028440 / 2 ^ 51"
      by (simp add: divide_right_mono)
    also have "\<dots> < pi" by (rule pi_above_double)
    finally show ?thesis using m by force
  qed
qed

lemma round_real_in_minus_pi_pi:
  assumes "0 \<le> r" and "r \<le> pi"
  shows "in_minus_pi_pi (round_real s r)" and "sign_bit (round_real s r) = s"
proof -
  from round_real_below_pi [OF assms]
  obtain m e where r: "round_real s r = Finite s m e" and m: "0 \<le> m"
    and v: "real_of_rat (rat_of_int m * pow2 e) < pi"
    by blast
  define t where "t = real_of_rat (rat_of_int m * pow2 e)"
  have nn: "0 \<le> t"
    unfolding t_def using m pow2_pos [of e] by (simp add: less_imp_le)
  have val: "real_of_rat (valof (Finite s m e)) = (if s then - t else t)"
    using m by (simp add: t_def of_rat_minus)
  have "- pi < (if s then - t else t) \<and> (if s then - t else t) \<le> pi"
    using nn v pi_gt_zero unfolding t_def [symmetric] by (cases s) simp_all
  then show "in_minus_pi_pi (round_real s r)"
    unfolding r in_minus_pi_pi_def val by simp
  show "sign_bit (round_real s r) = s" by (simp add: r)
qed

lemma round_half_even_real_pi: "round_half_even_real (pi * 2 ^ 51) = 7074237752028440"
proof (rule antisym)
  show "round_half_even_real (pi * 2 ^ 51) \<le> 7074237752028440"
    using pi_less_half_way by (rule round_half_even_real_below_half)
  have "real_of_int 7074237752028440 \<le> pi * 2 ^ 51"
    using pi_above_double by (simp add: pos_divide_less_eq less_imp_le)
  then show "7074237752028440 \<le> round_half_even_real (pi * 2 ^ 51)"
    by (rule round_half_even_real_ge)
qed

lemma round_real_unfold:
  assumes "0 < r" and "\<lfloor>log 2 r\<rfloor> = L" and "- 1022 \<le> L"
  shows "round_real s r
    = normalise s (round_half_even_real (r / real_of_rat (pow2 (L - 52)))) (L - 52)"
  using assms by (simp add: round_real_def Let_def max_absorb1)

lemma round_real_pi: "round_real s pi = Finite s 7074237752028440 (- 51)"
proof -
  have a: "1 \<le> log 2 pi"
    using two_less_pi by (simp add: le_log_iff)
  have "pi < 2 powr 2" using pi_less_4 by simp
  then have b: "log 2 pi < 2" by (simp add: log_less_iff)
  have L: "\<lfloor>log 2 pi\<rfloor> = 1"
    using a b by (intro floor_unique) simp_all
  have p: "real_of_rat (pow2 (- 51)) = 1 / 2 ^ 51"
    by (simp add: pow2_def of_rat_divide of_rat_power)
  have x: "pi / real_of_rat (pow2 (- 51)) = pi * 2 ^ 51"
    by (simp add: p)
  have "round_real s pi = normalise s (round_half_even_real (pi / real_of_rat (pow2 (- 51)))) (- 51)"
    using round_real_unfold [of pi 1 s] L pi_gt_zero by simp
  then have "round_real s pi = normalise s 7074237752028440 (- 51)"
    by (simp only: x round_half_even_real_pi)
  then show ?thesis
    by (simp add: normalise_def)
qed

lemma round_real_half_pi: "round_real s (pi / 2) = Finite s 7074237752028440 (- 52)"
proof -
  have a: "0 \<le> log 2 (pi / 2)"
    using two_less_pi by (simp add: le_log_iff)
  have "pi / 2 < 2 powr 1" using pi_less_4 by simp
  then have b: "log 2 (pi / 2) < 1" by (simp add: log_less_iff)
  have L: "\<lfloor>log 2 (pi / 2)\<rfloor> = 0"
    using a b by (intro floor_unique) simp_all
  have p: "real_of_rat (pow2 (- 52)) = 1 / 2 ^ 52"
    by (simp add: pow2_def of_rat_divide of_rat_power)
  have x: "pi / 2 / real_of_rat (pow2 (- 52)) = pi * 2 ^ 51"
    by (simp add: p)
  have "round_real s (pi / 2)
      = normalise s (round_half_even_real (pi / 2 / real_of_rat (pow2 (- 52)))) (- 52)"
    using round_real_unfold [of "pi / 2" 0 s] L pi_gt_zero by simp
  then have "round_real s (pi / 2) = normalise s 7074237752028440 (- 52)"
    by (simp only: x round_half_even_real_pi)
  then show ?thesis
    by (simp add: normalise_def)
qed

lemma round_real_0: "round_real s 0 = Finite s 0 0"
  by (simp add: round_real_def)

lemma cos_ratio_bounds: "- 1 \<le> x / sqrt (x\<^sup>2 + y\<^sup>2)" "x / sqrt (x\<^sup>2 + y\<^sup>2) \<le> 1"
proof -
  define h where "h = sqrt (x\<^sup>2 + y\<^sup>2)"
  have "sqrt (x\<^sup>2) \<le> h" unfolding h_def by (rule real_sqrt_le_mono) simp
  then have a: "\<bar>x\<bar> \<le> h" by simp
  have h0: "0 \<le> h" using a by linarith
  have "\<bar>x / h\<bar> \<le> 1"
  proof (cases "h = 0")
    case True
    then show ?thesis by simp
  next
    case False
    with h0 have "0 < h" by simp
    with a show ?thesis by (simp add: abs_divide)
  qed
  then show "- 1 \<le> x / sqrt (x\<^sup>2 + y\<^sup>2)" "x / sqrt (x\<^sup>2 + y\<^sup>2) \<le> 1"
    unfolding h_def by linarith+
qed

lemma abs_angle_bounds: "0 \<le> abs_angle y x \<and> abs_angle y x \<le> pi"
proof (cases y)
  case NaN
  then show ?thesis by simp
next
  case (Infinity s)
  then show ?thesis by (cases x) simp_all
next
  case y: (Finite s m e)
  show ?thesis
  proof (cases x)
    case NaN
    with y show ?thesis by simp
  next
    case (Infinity t)
    with y show ?thesis by simp
  next
    case (Finite t n f)
    with y show ?thesis
      using cos_ratio_bounds [of "real_of_rat (valof (Finite t n f))" "real_of_rat (valof (Finite s m e))"]
      by (simp only: abs_angle.simps) (simp add: arccos_lbound arccos_ubound del: valof.simps)
  qed
qed

lemma atan2_annex_f_nan: "is_nan y \<or> is_nan x \<Longrightarrow> atan2_annex_f y x = NaN"
  by (simp add: atan2_annex_f_def)

lemma atan2_annex_f_range:
  assumes "\<not> is_nan y" and "\<not> is_nan x"
  shows "in_minus_pi_pi (atan2_annex_f y x)" and "sign_bit (atan2_annex_f y x) = sign_bit y"
  using assms abs_angle_bounds [of y x]
  by (simp_all add: atan2_annex_f_def round_real_in_minus_pi_pi)

lemma atan2_annex_f_real_axis:
  assumes "is_zero y" and "\<not> is_nan x"
  shows "atan2_annex_f y x =
    (if sign_bit x then Finite (sign_bit y) 7074237752028440 (- 51) else Finite (sign_bit y) 0 0)"
proof -
  from assms(1) obtain s e where y: "y = Finite s 0 e" by (cases y) simp_all
  from assms(2) have "atan2_annex_f y x = round_real (sign_bit y) (abs_angle y x)"
    by (simp add: atan2_annex_f_def y)
  also from assms(2) have "abs_angle y x = (if sign_bit x then pi else 0)"
    unfolding y by (cases x) simp_all
  finally show ?thesis
    by (simp only: round_real_pi round_real_0 if_distrib [of "round_real (sign_bit y)"])
qed

lemma atan2_annex_f_imaginary_axis:
  assumes "is_zero x" and "\<not> is_nan y" and "\<not> is_zero y"
  shows "atan2_annex_f y x = Finite (sign_bit y) 7074237752028440 (- 52)"
proof -
  from assms(1) obtain t f where x: "x = Finite t 0 f" by (cases x) simp_all
  from assms(2) have "atan2_annex_f y x = round_real (sign_bit y) (abs_angle y x)"
    by (simp add: atan2_annex_f_def x)
  also from assms(2,3) have "abs_angle y x = pi / 2"
    unfolding x by (cases y) (simp_all add: arccos_0)
  finally show ?thesis
    by (simp only: round_real_half_pi)
qed

subsection \<open>The argument\<close>

lemma nan_not_in_minus_pi_pi: "is_nan d \<Longrightarrow> \<not> in_minus_pi_pi d"
  by (cases d) (simp_all add: in_minus_pi_pi_def)

lemma arg_c_annex_f: "arg_c (annex_f lm) a = atan2_annex_f (imaginary a) (real_m a)"
  by (simp add: arg_c_def annex_f_def)

text \<open>
  C6 (as amended). \<open>arg\<close> returns what the library's \<open>atan2\<close> returns for the arguments
  \<open>(imaginary, real)\<close>, in this order. With the \<open>atan2\<close> of the spec, the argument of a value
  with a NaN component is a NaN, and the argument of any other value is a finite double in
  \<open>(-\<pi>, \<pi>]\<close> with the sign of the imaginary part. On the real axis (imaginary part \<open>\<plusminus>0\<close>) it
  is \<open>\<plusminus>0\<close> when the real part has its sign bit clear and \<open>\<plusminus>\<pi>\<close> when it has it set, a
  zero real part included; on the imaginary axis (real part \<open>\<plusminus>0\<close>, imaginary part not zero)
  it is \<open>\<plusminus>\<pi>/2\<close>; here \<open>\<pi>\<close> and \<open>\<pi>/2\<close> are the nearest doubles
  \<open>7074237752028440 \<sqdot> 2\<^sup>-\<^sup>5\<^sup>1\<close> and \<open>7074237752028440 \<sqdot> 2\<^sup>-\<^sup>5\<^sup>2\<close>, and the sign is that of the
  imaginary part.
\<close>

theorem C6_argument:
  "arg_c lm a = std_atan2 lm (imaginary a) (real_m a)
   \<and> (if is_nan (real_m a) \<or> is_nan (imaginary a) then is_nan (arg_c (annex_f lm) a)
       else in_minus_pi_pi (arg_c (annex_f lm) a)
         \<and> sign_bit (arg_c (annex_f lm) a) = sign_bit (imaginary a))
   \<and> (is_zero (imaginary a) \<and> \<not> is_nan (real_m a) \<longrightarrow>
        arg_c (annex_f lm) a
        = (if sign_bit (real_m a) then Finite (sign_bit (imaginary a)) 7074237752028440 (- 51)
           else Finite (sign_bit (imaginary a)) 0 0))
   \<and> (is_zero (real_m a) \<and> \<not> is_nan (imaginary a) \<and> \<not> is_zero (imaginary a) \<longrightarrow>
        arg_c (annex_f lm) a = Finite (sign_bit (imaginary a)) 7074237752028440 (- 52))"
proof (intro conjI impI)
  show "arg_c lm a = std_atan2 lm (imaginary a) (real_m a)"
    by (simp add: arg_c_def)
  show "if is_nan (real_m a) \<or> is_nan (imaginary a) then is_nan (arg_c (annex_f lm) a)
        else in_minus_pi_pi (arg_c (annex_f lm) a)
          \<and> sign_bit (arg_c (annex_f lm) a) = sign_bit (imaginary a)"
  proof (cases "is_nan (real_m a) \<or> is_nan (imaginary a)")
    case True
    then have "atan2_annex_f (imaginary a) (real_m a) = NaN"
      by (intro atan2_annex_f_nan) blast
    with True show ?thesis by (simp add: arg_c_annex_f)
  next
    case False
    then have "\<not> is_nan (imaginary a)" and "\<not> is_nan (real_m a)" by simp_all
    then have "in_minus_pi_pi (atan2_annex_f (imaginary a) (real_m a))"
      and "sign_bit (atan2_annex_f (imaginary a) (real_m a)) = sign_bit (imaginary a)"
      by (rule atan2_annex_f_range)+
    with False show ?thesis by (simp add: arg_c_annex_f)
  qed
next
  assume "is_zero (imaginary a) \<and> \<not> is_nan (real_m a)"
  then show "arg_c (annex_f lm) a
        = (if sign_bit (real_m a) then Finite (sign_bit (imaginary a)) 7074237752028440 (- 51)
           else Finite (sign_bit (imaginary a)) 0 0)"
    unfolding arg_c_annex_f by (intro atan2_annex_f_real_axis) simp_all
next
  assume "is_zero (real_m a) \<and> \<not> is_nan (imaginary a) \<and> \<not> is_zero (imaginary a)"
  then show "arg_c (annex_f lm) a = Finite (sign_bit (imaginary a)) 7074237752028440 (- 52)"
    unfolding arg_c_annex_f by (intro atan2_annex_f_imaginary_axis) simp_all
qed

text \<open>Three instances, whatever the rest of the library: \<open>-1 - 0i\<close> on the negative real
  axis, \<open>0 - 2i\<close> on the imaginary axis, and \<open>3 + 4i\<close> in the first quadrant.\<close>

theorem C6_witness:
  "\<forall>lm.
     (is_zero (imaginary (Complex_xy (D (- 1)) (fneg (D 0))))
        \<and> \<not> is_nan (real_m (Complex_xy (D (- 1)) (fneg (D 0)))))
     \<and> arg_c (annex_f lm) (Complex_xy (D (- 1)) (fneg (D 0)))
        = Finite True 7074237752028440 (- 51)
     \<and> (is_zero (real_m (Complex_xy (D 0) (D (- 2))))
        \<and> \<not> is_nan (imaginary (Complex_xy (D 0) (D (- 2))))
        \<and> \<not> is_zero (imaginary (Complex_xy (D 0) (D (- 2)))))
     \<and> arg_c (annex_f lm) (Complex_xy (D 0) (D (- 2)))
        = Finite True 7074237752028440 (- 52)
     \<and> in_minus_pi_pi (arg_c (annex_f lm) (Complex_xy (D 3) (D 4)))
     \<and> \<not> sign_bit (arg_c (annex_f lm) (Complex_xy (D 3) (D 4)))"
proof
  fix lm
  let ?a = "Complex_xy (D (- 1)) (fneg (D 0))"
  let ?b = "Complex_xy (D 0) (D (- 2))"
  let ?c = "Complex_xy (D 3) (D 4)"
  have ha: "is_zero (imaginary ?a) \<and> \<not> is_nan (real_m ?a)"
    by code_simp
  have sa: "sign_bit (real_m ?a)" "sign_bit (imaginary ?a)"
    by code_simp+
  have "arg_c (annex_f lm) ?a
        = (if sign_bit (real_m ?a) then Finite (sign_bit (imaginary ?a)) 7074237752028440 (- 51)
           else Finite (sign_bit (imaginary ?a)) 0 0)"
    by (rule C6_argument [THEN conjunct2, THEN conjunct2, THEN conjunct1, rule_format, OF ha])
  then have a: "arg_c (annex_f lm) ?a = Finite True 7074237752028440 (- 51)"
    by (simp only: sa if_True)
  have hb: "is_zero (real_m ?b) \<and> \<not> is_nan (imaginary ?b) \<and> \<not> is_zero (imaginary ?b)"
    by code_simp
  have sb: "sign_bit (imaginary ?b)"
    by code_simp
  have "arg_c (annex_f lm) ?b = Finite (sign_bit (imaginary ?b)) 7074237752028440 (- 52)"
    by (rule C6_argument [THEN conjunct2, THEN conjunct2, THEN conjunct2, rule_format, OF hb])
  then have b: "arg_c (annex_f lm) ?b = Finite True 7074237752028440 (- 52)"
    by (simp only: sb)
  have hc: "\<not> (is_nan (real_m ?c) \<or> is_nan (imaginary ?c))"
    by code_simp
  have sc: "\<not> sign_bit (imaginary ?c)"
    by code_simp
  have "if is_nan (real_m ?c) \<or> is_nan (imaginary ?c) then is_nan (arg_c (annex_f lm) ?c)
        else in_minus_pi_pi (arg_c (annex_f lm) ?c)
          \<and> sign_bit (arg_c (annex_f lm) ?c) = sign_bit (imaginary ?c)"
    by (rule C6_argument [THEN conjunct2, THEN conjunct1])
  with hc have "in_minus_pi_pi (arg_c (annex_f lm) ?c)
      \<and> sign_bit (arg_c (annex_f lm) ?c) = sign_bit (imaginary ?c)"
    by (simp only: if_False)
  with sc have c: "in_minus_pi_pi (arg_c (annex_f lm) ?c)"
      "\<not> sign_bit (arg_c (annex_f lm) ?c)"
    by simp_all
  from ha a hb b c
  show "(is_zero (imaginary ?a) \<and> \<not> is_nan (real_m ?a))
     \<and> arg_c (annex_f lm) ?a = Finite True 7074237752028440 (- 51)
     \<and> (is_zero (real_m ?b) \<and> \<not> is_nan (imaginary ?b) \<and> \<not> is_zero (imaginary ?b))
     \<and> arg_c (annex_f lm) ?b = Finite True 7074237752028440 (- 52)
     \<and> in_minus_pi_pi (arg_c (annex_f lm) ?c)
     \<and> \<not> sign_bit (arg_c (annex_f lm) ?c)"
    by blast
qed

text \<open>C6 as stated promises the range for every value. A value with a NaN component is
  a value of the type, and its argument is a NaN, which is in no range.\<close>

theorem C6_counterexample:
  "\<forall>lm. is_nan (arg_c (annex_f lm) (Complex_xy NaN (D 1)))
     \<and> \<not> in_minus_pi_pi (arg_c (annex_f lm) (Complex_xy NaN (D 1)))"
proof
  fix lm
  have "arg_c (annex_f lm) (Complex_xy NaN (D 1)) = NaN"
    by (simp add: arg_c_annex_f Complex_xy_def atan2_annex_f_def)
  then show "is_nan (arg_c (annex_f lm) (Complex_xy NaN (D 1)))
     \<and> \<not> in_minus_pi_pi (arg_c (annex_f lm) (Complex_xy NaN (D 1)))"
    by (simp add: in_minus_pi_pi_def)
qed

section \<open>Conjugate and equality: \<^verbatim>\<open>Complex::operator~\<close>, \<^verbatim>\<open>operator==\<close>\<close>

text \<open>
  C7 (as amended). The conjugate keeps the real part and negates the imaginary part.
  Conjugating twice gives back the very same components. Under \<^verbatim>\<open>operator==\<close> the result
  compares equal to the original exactly when no component is a NaN.
\<close>

theorem C7_conjugate:
  "operator_tilde a = \<lparr>real_m = real_m a, imaginary = fneg (imaginary a)\<rparr>
   \<and> operator_tilde (operator_tilde a) = a
   \<and> operator_eq (operator_tilde (operator_tilde a)) a
       = (\<not> is_nan (real_m a) \<and> \<not> is_nan (imaginary a))"
  by (simp add: operator_tilde_def Complex_xy_def fneg_fneg operator_eq_def
      real_get_def imag_get_def feq_refl)

text \<open>C7 as stated, with the type's equality, fails for \<open>(NaN, 0)\<close>: a NaN is not equal
  to itself.\<close>

theorem C7_counterexample:
  "\<not> operator_eq (operator_tilde (operator_tilde (Complex_xy NaN (D 0)))) (Complex_xy NaN (D 0))"
  by (simp add: operator_tilde_def Complex_xy_def operator_eq_def real_get_def)

text \<open>
  C8. \<^verbatim>\<open>operator==\<close> holds exactly when the real parts compare equal and the imaginary
  parts compare equal. Two doubles compare equal exactly when they are finite with the same
  value or the same infinity, so no tolerance is applied: \<open>1\<close> and its successor
  \<open>1 + 2\<^sup>-\<^sup>5\<^sup>2\<close> are different.
\<close>

theorem C8_equality:
  "operator_eq a b = (feq (real_m a) (real_m b) \<and> feq (imaginary a) (imaginary b))
   \<and> feq x y = ((is_finite x \<and> is_finite y \<and> valof x = valof y)
                \<or> (\<exists>s. x = Infinity s \<and> y = Infinity s))
   \<and> \<not> operator_eq (Complex_xy (D 1) (D 0)) (Complex_xy (Finite False (2 ^ 52 + 1) (- 52)) (D 0))
   \<and> valid_double (Finite False (2 ^ 52 + 1) (- 52))"
proof (intro conjI)
  show "\<not> operator_eq (Complex_xy (D 1) (D 0)) (Complex_xy (Finite False (2 ^ 52 + 1) (- 52)) (D 0))"
    by code_simp
  show "valid_double (Finite False (2 ^ 52 + 1) (- 52))"
    by simp
  show "feq x y = ((is_finite x \<and> is_finite y \<and> valof x = valof y)
                \<or> (\<exists>s. x = Infinity s \<and> y = Infinity s))"
    by (cases x; cases y) auto
qed (simp add: operator_eq_def real_get_def imag_get_def)

section \<open>Formatting: \<^verbatim>\<open>operator<<\<close>\<close>

lemma operator_shl_unfold:
  "operator_shl os num =
     os @ [Str ''('', Num (real_m num),
           Str (if flt (imaginary num) (D 0) then '' - '' else '' + ''),
           Num (if flt (imaginary num) (D 0) then fneg (imaginary num) else imaginary num),
           Str ''i)'']"
  by (simp add: operator_shl_def real_get_def imag_get_def)

lemma flt_zero_sign_bit: "\<not> neg_zero x \<Longrightarrow> flt x (D 0) = sign_bit x"
  by (cases x) (auto simp: flt_zero_iff)

text \<open>
  C9 (as amended). For an imaginary part that is neither \<open>-0.0\<close> nor a NaN,
  \<^verbatim>\<open>operator<<\<close> appends \<open>(\<close>, the real part, the sign \<open>-\<close> or \<open>+\<close> chosen by the sign of the
  imaginary part, the absolute value of the imaginary part, and \<open>i)\<close>. The two examples
  of the specification come out as \<open>(3 - 4i)\<close> and \<open>(3 + 4i)\<close>.
\<close>

theorem C9_formatting:
  "(\<not> neg_zero (imaginary num) \<and> \<not> is_nan (imaginary num) \<longrightarrow>
      operator_shl os num =
        os @ [Str ''('', Num (real_m num),
              Str (if sign_bit (imaginary num) then '' - '' else '' + ''),
              Num (fabs (imaginary num)), Str ''i)''])
   \<and> operator_shl [] (Complex_xy (D 3) (D (- 4)))
       = [Str ''('', Num (D 3), Str '' - '', Num (D 4), Str ''i)'']
   \<and> operator_shl [] (Complex_xy (D 3) (D 4))
       = [Str ''('', Num (D 3), Str '' + '', Num (D 4), Str ''i)'']"
proof (intro conjI impI)
  show "operator_shl [] (Complex_xy (D 3) (D (- 4)))
       = [Str ''('', Num (D 3), Str '' - '', Num (D 4), Str ''i)'']"
    by code_simp
  show "operator_shl [] (Complex_xy (D 3) (D 4))
       = [Str ''('', Num (D 3), Str '' + '', Num (D 4), Str ''i)'']"
    by code_simp
  assume h: "\<not> neg_zero (imaginary num) \<and> \<not> is_nan (imaginary num)"
  then have p: "(if flt (imaginary num) (D 0) then fneg (imaginary num) else imaginary num)
      = fabs (imaginary num)"
    by (simp add: printed_is_fabs)
  from h have f: "flt (imaginary num) (D 0) = sign_bit (imaginary num)"
    by (simp add: flt_zero_sign_bit)
  show "operator_shl os num =
        os @ [Str ''('', Num (real_m num),
              Str (if sign_bit (imaginary num) then '' - '' else '' + ''),
              Num (fabs (imaginary num)), Str ''i)'']"
    by (simp only: operator_shl_unfold p, simp only: f)
qed

text \<open>The hypothesis holds for the imaginary part \<open>-4\<close>, whose absolute value is \<open>4\<close>.\<close>

theorem C9_witness:
  "\<not> neg_zero (imaginary (Complex_xy (D 3) (D (- 4))))
   \<and> \<not> is_nan (imaginary (Complex_xy (D 3) (D (- 4))))
   \<and> operator_shl [] (Complex_xy (D 3) (D (- 4))) =
       [] @ [Str ''('', Num (real_m (Complex_xy (D 3) (D (- 4)))),
             Str (if sign_bit (imaginary (Complex_xy (D 3) (D (- 4)))) then '' - '' else '' + ''),
             Num (fabs (imaginary (Complex_xy (D 3) (D (- 4))))), Str ''i)'']
   \<and> sign_bit (imaginary (Complex_xy (D 3) (D (- 4))))
   \<and> fabs (imaginary (Complex_xy (D 3) (D (- 4)))) = D 4"
proof -
  let ?c = "Complex_xy (D 3) (D (- 4))"
  have h: "\<not> neg_zero (imaginary ?c) \<and> \<not> is_nan (imaginary ?c)"
    by code_simp
  have s: "sign_bit (imaginary ?c)" and a: "fabs (imaginary ?c) = D 4"
    by code_simp+
  from C9_formatting [THEN conjunct1, rule_format, OF h, of "[]"] h s a
  show ?thesis by blast
qed

text \<open>With a printer that writes \<open>3\<close> and \<open>4\<close> as the stream does, the two examples are the
  strings of the specification.\<close>

lemma render_examples:
  assumes "pr (D 3) = ''3''" and "pr (D 4) = ''4''"
  shows "render pr (operator_shl [] (Complex_xy (D 3) (D (- 4)))) = ''(3 - 4i)''"
    and "render pr (operator_shl [] (Complex_xy (D 3) (D 4))) = ''(3 + 4i)''"
proof -
  have "operator_shl [] (Complex_xy (D 3) (D (- 4)))
       = [Str ''('', Num (D 3), Str '' - '', Num (D 4), Str ''i)'']"
    by code_simp
  with assms show "render pr (operator_shl [] (Complex_xy (D 3) (D (- 4)))) = ''(3 - 4i)''"
    by simp
  have "operator_shl [] (Complex_xy (D 3) (D 4))
       = [Str ''('', Num (D 3), Str '' + '', Num (D 4), Str ''i)'']"
    by code_simp
  with assms show "render pr (operator_shl [] (Complex_xy (D 3) (D 4))) = ''(3 + 4i)''"
    by simp
qed

text \<open>C9 as stated fails for the imaginary part \<open>-0.0\<close>, which the conjugate of
  \<open>(3, 0.0)\<close> has: its sign is negative, the sign written is \<open>+\<close>, and the number inserted
  after it is \<open>-0.0\<close>, not its absolute value.\<close>

theorem C9_counterexample:
  "operator_shl [] (operator_tilde (Complex_xy (D 3) (D 0)))
     = [Str ''('', Num (D 3), Str '' + '', Num (fneg (D 0)), Str ''i)'']
   \<and> sign_bit (fneg (D 0))
   \<and> fneg (D 0) \<noteq> fabs (fneg (D 0))"
  by (simp add: operator_shl_def operator_tilde_def Complex_xy_def real_get_def imag_get_def D_0)

section \<open>Kirchhoff's voltage law\<close>

text \<open>For \<^verbatim>\<open>double\<close> the check is the comparison of the absolute value of the running
  sum with the double nearest to \<open>10\<^sup>-\<^sup>6\<close>, and the two self-tests of the source and the
  empty vector come out as the source expects. The sum is the one accumulated from left
  to right in double precision: \<open>0.1 + 0.2 - 0.3\<close> is not zero and passes under the
  tolerance, and \<open>10\<^sup>1\<^sup>6 + 1 - 10\<^sup>1\<^sup>6\<close> accumulates to zero.\<close>

lemma voltage_law_double:
  "voltage_law_satisfied T_double voltages =
     flt (fabs (foldl fadd (D 0) voltages)) (D (1 / 1000000))"
  by (simp add: voltage_law_satisfied_def T_double_def)

lemma voltage_law_double_tests:
  "voltage_law_satisfied T_double [D 10, D (- 4), D (- 6)]"
  "\<not> voltage_law_satisfied T_double [D 12, D (- 5), D (- 4)]"
  "voltage_law_satisfied T_double []"
  by code_simp+

lemma voltage_law_double_rounding:
  "\<not> feq (foldl fadd (D 0) [D (1 / 10), D (2 / 10), D (- 3 / 10)]) (D 0)"
  "voltage_law_satisfied T_double [D (1 / 10), D (2 / 10), D (- 3 / 10)]"
  "foldl fadd (D 0) [D 10000000000000000, D 1, D (- 10000000000000000)] = D 0"
  by code_simp+

lemma cast_1e_6_int: "cast_1e_6 T_int = 0"
  by code_simp

text \<open>
  C10 at the element type \<^verbatim>\<open>int\<close>. The tolerance \<^verbatim>\<open>static_cast<int>(1e-6)\<close> is 0, no
  absolute value is less than 0, and the function returns false for every vector: for
  the empty one, and for the balanced loop \<open>10, -4, -6\<close> of the self-test.
\<close>

theorem C10_int_voltages_never_satisfied:
  "\<not> voltage_law_satisfied T_int voltages
   \<and> \<not> voltage_law_satisfied T_int []
   \<and> \<not> voltage_law_satisfied T_int [10, - 4, - 6]"
proof -
  have "\<not> voltage_law_satisfied T_int vs" for vs
    using cast_1e_6_int by (simp add: voltage_law_satisfied_def T_int_def)
  then show ?thesis by simp
qed

end
